theory Spec2Isabelle
  imports Main "HOL-Library.Word" "HOL-Library.AList" "HOL-Library.Multiset"
begin

section \<open>The bulk renamer of \<^verbatim>\<open>src/caro/main.cpp\<close>\<close>

text \<open>
  The program reads two integers \<open>a\<close> (the offset) and \<open>b\<close> (the minimum), scans the
  current directory for files named \<^verbatim>\<open>NUMBER.EXTENSION\<close>, sorts them by number
  (descending when \<open>0 \<le> a\<close>, ascending otherwise) and renames each file to
  \<^verbatim>\<open>(NUMBER + a).EXTENSION\<close> unless one of three skip rules applies.

  The embedding keeps the structure of \<^verbatim>\<open>main\<close>: the two extractions from
  \<^verbatim>\<open>std::cin\<close>, the scan loop over the directory iterator, the sort, the rename loop.
  The file system is an explicit state, the two output streams are a list of messages,
  exceptions are values of sum types.
\<close>

subsection \<open>Machine integers\<close>

text \<open>
  \<^verbatim>\<open>int\<close> is the 32-bit two's complement integer of the mainstream platforms.
  \<^verbatim>\<open>old_number + a\<close> (line 136) is a signed addition; the C++ standard leaves its
  overflow undefined, the compiled program wraps around, and so does the model
  (\<open>+\<close> on \<open>32 word\<close>). Comparisons of \<^verbatim>\<open>int\<close>s are the signed ones, \<open><s\<close> and \<open>\<le>s\<close>.
\<close>

type_synonym int32 = "32 word"

subsection \<open>Library calls: \<^verbatim>\<open>std::stoi\<close>, \<^verbatim>\<open>std::to_string\<close>, \<^verbatim>\<open>std::regex_match\<close>\<close>

definition is_digit :: "char \<Rightarrow> bool" where
  "is_digit c = (c \<in> set ''0123456789'')"

definition digit_value :: "char \<Rightarrow> int" where
  "digit_value c = of_char c - 48"

definition digits_value :: "string \<Rightarrow> int" where
  "digits_value ds = foldl (\<lambda>acc c. 10 * acc + digit_value c) 0 ds"

datatype stoi_error = Invalid_argument | Out_of_range

text \<open>
  \<^verbatim>\<open>std::stoi(s)\<close> on the strings the program passes, which are digit runs: the value of
  the leading decimal digits; \<^verbatim>\<open>std::invalid_argument\<close> when there is none,
  \<^verbatim>\<open>std::out_of_range\<close> when the value exceeds \<^verbatim>\<open>INT_MAX\<close>.
\<close>

definition stoi :: "string \<Rightarrow> stoi_error + int32" where
  "stoi s =
     (let ds = takeWhile is_digit s in
      if ds = [] then Inl Invalid_argument
      else if 2147483647 < digits_value ds then Inl Out_of_range
      else Inr (word_of_int (digits_value ds)))"

definition digit_char :: "int \<Rightarrow> char" where
  "digit_char d = ''0123456789'' ! nat d"

text \<open>The decimal digits of a natural number, most significant first.\<close>

function dec :: "int \<Rightarrow> string" where
  "dec n = (if n < 10 then [digit_char n] else dec (n div 10) @ [digit_char (n mod 10)])"
  by pat_completeness auto
termination
  by (relation "measure nat") auto

declare dec.simps [simp del]

text \<open>\<^verbatim>\<open>std::to_string(int)\<close>: the decimal rendering, with a minus sign for a negative value.\<close>

definition to_string :: "int32 \<Rightarrow> string" where
  "to_string n =
     (if sint n < 0 then CHR ''-'' # dec (- sint n) else dec (sint n))"

text \<open>
  The ECMAScript \<^verbatim>\<open>.\<close> of \<^verbatim>\<open>std::regex\<close> matches every character but the line
  terminators.
\<close>

definition any_char :: "char \<Rightarrow> bool" where
  "any_char c = (c \<noteq> CHR 0x0A \<and> c \<noteq> CHR 0x0D)"

text \<open>
  \<^verbatim>\<open>std::regex_match(filename, matches, filename_regex)\<close> for the pattern
  \<^verbatim>\<open>^(\d+)\.(.+)$\<close> of line 71. A digit run cannot hold the dot that must follow it,
  so the first group is the longest digit prefix and the second group is all that follows
  the first dot. The result is \<open>(matches[1], matches[2])\<close>.
\<close>

definition regex_match :: "string \<Rightarrow> (string \<times> string) option" where
  "regex_match filename =
     (let m1 = takeWhile is_digit filename; rest = dropWhile is_digit filename in
      case rest of
        [] \<Rightarrow> None
      | c # m2 \<Rightarrow>
          if m1 \<noteq> [] \<and> c = CHR ''.'' \<and> m2 \<noteq> [] \<and> list_all any_char m2
          then Some (m1, m2) else None)"

subsection \<open>The file system\<close>

text \<open>
  The current directory is a list of named entries in the order in which
  \<^verbatim>\<open>fs::directory_iterator\<close> yields them. Every path the program builds is
  \<^verbatim>\<open>current_dir / name\<close> (\<^verbatim>\<open>original_path.parent_path()\<close> is \<^verbatim>\<open>current_dir\<close>), so a path is
  identified with its file name. A regular file carries its contents, a symbolic link the
  path it points to.

  \<^verbatim>\<open>entry.is_regular_file()\<close> (line 80) asks for the status of the entry and so follows
  symbolic links: it holds of a regular file and of a link that points to one. The scan
  is over before the first rename, so a link is classified once, by what it points to
  when the scan reaches it: \<open>Link_to_regular_file\<close>, or \<open>Other\<close> together with the
  special files. \<^verbatim>\<open>fs::rename\<close> does not follow links: it moves and replaces the link
  itself.
\<close>

datatype node = Regular_file string | Directory | Link_to_regular_file string | Other

type_synonym directory = "(string \<times> node) list"

fun is_regular_file :: "node \<Rightarrow> bool" where
  "is_regular_file (Regular_file _) = True"
| "is_regular_file (Link_to_regular_file _) = True"
| "is_regular_file _ = False"

text \<open>
  What the program cannot control: the directory, whether the directory iteration throws
  \<^verbatim>\<open>fs::filesystem_error\<close> (after having yielded so many entries), and the renames the
  system refuses (permissions, locks).
\<close>

record world =
  entries :: directory
  iteration_fails_after :: "nat option"
  rename_denied :: "string \<Rightarrow> string \<Rightarrow> bool"

datatype filesystem_error = Filesystem_error

text \<open>
  \<^verbatim>\<open>fs::rename(old_p, new_p)\<close> as the standard defines it (POSIX \<^verbatim>\<open>rename\<close>) for a source
  that is not a directory: an existing target that is not a directory (a file, a link, a
  special file) is replaced, a target that is a directory is an error.
\<close>

definition fs_rename ::
  "(string \<Rightarrow> string \<Rightarrow> bool) \<Rightarrow> string \<Rightarrow> string \<Rightarrow> directory \<Rightarrow> filesystem_error + directory" where
  "fs_rename denied old_p new_p d =
     (case map_of d old_p of
        None \<Rightarrow> Inl Filesystem_error
      | Some nd \<Rightarrow>
          if denied old_p new_p then Inl Filesystem_error
          else if old_p = new_p then Inr d
          else if map_of d new_p = Some Directory then Inl Filesystem_error
          else Inr (AList.update new_p nd (AList.delete old_p d)))"

definition directory_iterator :: "world \<Rightarrow> (string \<times> node) list \<times> bool" where
  "directory_iterator w =
     (case iteration_fails_after w of
        None \<Rightarrow> (entries w, False)
      | Some k \<Rightarrow> (take k (entries w), True))"

subsection \<open>Output\<close>

datatype stream = Cout | Cerr

datatype message =
    Banner
  | Prompt_a
  | Prompt_b
  | Invalid_input_a
  | Invalid_input_b
  | Searching_for_files
  | Warning_could_not_convert string
  | Warning_out_of_range string
  | Error_accessing_directory
  | No_files_found
  | Sorting_highest_to_lowest
  | Sorting_lowest_to_highest
  | Attempting_to_rename
  | Skipping_less_than_b string int32 int32
  | Skipping_negative string int32
  | Skipping_identical string
  | Renamed string string
  | Error_renaming string string
  | Renaming_process_complete
  | Press_enter

type_synonym out = "(stream \<times> message) list"

subsection \<open>\<^verbatim>\<open>FileInfo\<close> and the comparators\<close>

record FileInfo =
  number :: int32
  original_path :: string
  extension :: string

definition compareFilesDesc :: "FileInfo \<Rightarrow> FileInfo \<Rightarrow> bool" where
  "compareFilesDesc a b = (number b <s number a)"

definition compareFilesAsc :: "FileInfo \<Rightarrow> FileInfo \<Rightarrow> bool" where
  "compareFilesAsc a b = (number a <s number b)"

text \<open>
  \<^verbatim>\<open>std::sort\<close> returns a permutation ordered by the comparator and leaves the order of
  equivalent elements unspecified. The model is an insertion sort, which keeps them in
  their original order.
\<close>

fun insert_sorted :: "('a \<Rightarrow> 'a \<Rightarrow> bool) \<Rightarrow> 'a \<Rightarrow> 'a list \<Rightarrow> 'a list" where
  "insert_sorted cmp x [] = [x]"
| "insert_sorted cmp x (y # ys) =
     (if cmp y x then y # insert_sorted cmp x ys else x # y # ys)"

definition std_sort :: "('a \<Rightarrow> 'a \<Rightarrow> bool) \<Rightarrow> 'a list \<Rightarrow> 'a list" where
  "std_sort cmp xs = foldr (insert_sorted cmp) xs []"

subsection \<open>The scan loop (lines 76 to 108)\<close>

fun scan_entry :: "string \<times> node \<Rightarrow> FileInfo list \<times> out \<Rightarrow> FileInfo list \<times> out" where
  "scan_entry (filename, nd) (files_to_rename, log) =
     (if is_regular_file nd then
        (case regex_match filename of
           None \<Rightarrow> (files_to_rename, log)
         | Some (m1, m2) \<Rightarrow>
             (case stoi m1 of
                Inr n \<Rightarrow>
                  (files_to_rename @
                     [\<lparr>number = n, original_path = filename, extension = m2\<rparr>], log)
              | Inl Invalid_argument \<Rightarrow>
                  (files_to_rename, log @ [(Cerr, Warning_could_not_convert filename)])
              | Inl Out_of_range \<Rightarrow>
                  (files_to_rename, log @ [(Cerr, Warning_out_of_range filename)])))
      else (files_to_rename, log))"

subsection \<open>The rename loop (lines 134 to 180)\<close>

definition rename_file ::
  "int32 \<Rightarrow> int32 \<Rightarrow> (string \<Rightarrow> string \<Rightarrow> bool) \<Rightarrow> FileInfo \<Rightarrow> directory
     \<Rightarrow> directory \<times> stream \<times> message" where
  "rename_file a b denied file_info d =
     (let old_number = number file_info;
          new_number = old_number + a;
          original_filename_str = original_path file_info
      in
        if old_number <s b then
          (d, Cout, Skipping_less_than_b original_filename_str old_number b)
        else if new_number <s 0 then
          (d, Cout, Skipping_negative original_filename_str new_number)
        else
          let new_filename_str = to_string new_number @ ''.'' @ extension file_info in
          if original_filename_str = new_filename_str then
            (d, Cout, Skipping_identical original_filename_str)
          else
            (case fs_rename denied original_filename_str new_filename_str d of
               Inr d' \<Rightarrow> (d', Cout, Renamed original_filename_str new_filename_str)
             | Inl e \<Rightarrow> (d, Cerr, Error_renaming original_filename_str new_filename_str)))"

fun rename_pass ::
  "int32 \<Rightarrow> int32 \<Rightarrow> (string \<Rightarrow> string \<Rightarrow> bool) \<Rightarrow> FileInfo list \<Rightarrow> directory
     \<Rightarrow> directory \<times> out" where
  "rename_pass a b denied [] d = (d, [])"
| "rename_pass a b denied (file_info # files) d =
     (let (d1, line) = rename_file a b denied file_info d;
          (d2, lines) = rename_pass a b denied files d1
      in (d2, line # lines))"

subsection \<open>\<^verbatim>\<open>main\<close>\<close>

text \<open>
  \<open>cin_a\<close> and \<open>cin_b\<close> are the results of \<^verbatim>\<open>std::cin >> a\<close> and \<^verbatim>\<open>std::cin >> b\<close>:
  \<open>None\<close> when \<^verbatim>\<open>std::cin.fail()\<close> holds afterwards. The result is the exit status,
  the directory as the program leaves it, and what it wrote.
\<close>

record result =
  exit_code :: int
  fs :: directory
  printed :: out

definition sort_files :: "int32 \<Rightarrow> FileInfo list \<Rightarrow> FileInfo list \<times> stream \<times> message" where
  "sort_files a files_to_rename =
     (if 0 \<le>s a then (std_sort compareFilesDesc files_to_rename, Cout, Sorting_highest_to_lowest)
      else (std_sort compareFilesAsc files_to_rename, Cout, Sorting_lowest_to_highest))"

definition main :: "int32 option \<Rightarrow> int32 option \<Rightarrow> world \<Rightarrow> result" where
  "main cin_a cin_b w =
     (case cin_a of
        None \<Rightarrow>
          \<lparr>exit_code = 1, fs = entries w,
           printed = [(Cout, Banner), (Cout, Prompt_a), (Cerr, Invalid_input_a)]\<rparr>
      | Some a \<Rightarrow>
     (case cin_b of
        None \<Rightarrow>
          \<lparr>exit_code = 1, fs = entries w,
           printed = [(Cout, Banner), (Cout, Prompt_a), (Cout, Prompt_b), (Cerr, Invalid_input_b)]\<rparr>
      | Some b \<Rightarrow>
          let intro = [(Cout, Banner), (Cout, Prompt_a), (Cout, Prompt_b), (Cout, Searching_for_files)];
              (yielded, failed) = directory_iterator w;
              (files_to_rename, warnings) = fold scan_entry yielded ([], [])
          in
            if failed then
              \<lparr>exit_code = 1, fs = entries w,
               printed = intro @ warnings @ [(Cerr, Error_accessing_directory)]\<rparr>
            else if files_to_rename = [] then
              \<lparr>exit_code = 0, fs = entries w,
               printed = intro @ warnings @ [(Cout, No_files_found)]\<rparr>
            else
              let (sorted, sorting) = sort_files a files_to_rename;
                  (d, lines) = rename_pass a b (rename_denied w) sorted (entries w)
              in \<lparr>exit_code = 0, fs = d,
                  printed = intro @ warnings @ [sorting, (Cout, Attempting_to_rename)] @ lines
                           @ [(Cout, Renaming_process_complete), (Cout, Press_enter)]\<rparr>))"

subsection \<open>Vocabulary of the properties\<close>

text \<open>The original number of a file: the value of the digit run its name starts with.\<close>

definition original_number :: "string \<Rightarrow> int" where
  "original_number filename = digits_value (takeWhile is_digit filename)"

text \<open>The \<^verbatim>\<open>FileInfo\<close> that the scan loop pushes for a file name, if it pushes one.\<close>

definition matched_file :: "string \<Rightarrow> FileInfo option" where
  "matched_file filename =
     (case regex_match filename of
        None \<Rightarrow> None
      | Some (m1, m2) \<Rightarrow>
          (case stoi m1 of
             Inr n \<Rightarrow> Some \<lparr>number = n, original_path = filename, extension = m2\<rparr>
           | Inl e \<Rightarrow> None))"

definition entry_file :: "string \<times> node \<Rightarrow> FileInfo option" where
  "entry_file e = (if is_regular_file (snd e) then matched_file (fst e) else None)"

text \<open>
  The matched set of a run, the order in which the rename loop goes through it, and the
  lines that the rename loop prints.
\<close>

definition scanned :: "world \<Rightarrow> FileInfo list" where
  "scanned w = fst (fold scan_entry (entries w) ([], []))"

definition processing_order :: "int32 \<Rightarrow> world \<Rightarrow> FileInfo list" where
  "processing_order a w = fst (sort_files a (scanned w))"

definition pass_lines :: "int32 \<Rightarrow> int32 \<Rightarrow> world \<Rightarrow> out" where
  "pass_lines a b w =
     snd (rename_pass a b (rename_denied w) (processing_order a w) (entries w))"

text \<open>
  What a run printed about its renames: the successful ones (\<open>renames\<close>, old and new
  name, in the order performed), the attempted ones (\<open>attempts\<close>, which adds those that
  \<^verbatim>\<open>fs::rename\<close> refused), and the lines of the rename loop, one per file.
\<close>

fun renamed :: "stream \<times> message \<Rightarrow> (string \<times> string) option" where
  "renamed (s, Renamed old new) = Some (old, new)"
| "renamed _ = None"

definition renames :: "out \<Rightarrow> (string \<times> string) list" where
  "renames log = List.map_filter renamed log"

fun attempted :: "stream \<times> message \<Rightarrow> (string \<times> string) option" where
  "attempted (s, Renamed old new) = Some (old, new)"
| "attempted (s, Error_renaming old new) = Some (old, new)"
| "attempted _ = None"

definition attempts :: "out \<Rightarrow> (string \<times> string) list" where
  "attempts log = List.map_filter attempted log"

datatype decision = Skip_minimum | Skip_negative | Skip_identical | Attempt string

fun line_decision :: "stream \<times> message \<Rightarrow> (string \<times> decision) option" where
  "line_decision (s, Skipping_less_than_b f n b) = Some (f, Skip_minimum)"
| "line_decision (s, Skipping_negative f n) = Some (f, Skip_negative)"
| "line_decision (s, Skipping_identical f) = Some (f, Skip_identical)"
| "line_decision (s, Renamed f new) = Some (f, Attempt new)"
| "line_decision (s, Error_renaming f new) = Some (f, Attempt new)"
| "line_decision _ = None"

definition decisions :: "out \<Rightarrow> (string \<times> decision) list" where
  "decisions log = List.map_filter line_decision log"

text \<open>
  The skip rules in the words of the specification (section 4.4): a list of rules in the
  fixed order, the first rule whose condition holds decides, and the rename is attempted
  only when none holds. \<open>newNumber\<close> is the program's \<^verbatim>\<open>int\<close>.
\<close>

definition skip_rules :: "int32 \<Rightarrow> int32 \<Rightarrow> FileInfo \<Rightarrow> (bool \<times> decision) list" where
  "skip_rules offset minimum f =
     (let newNumber = number f + offset in
      [(number f <s minimum, Skip_minimum),
       (newNumber <s 0, Skip_negative),
       (to_string newNumber @ ''.'' @ extension f = original_path f, Skip_identical)])"

definition spec_decision :: "int32 \<Rightarrow> int32 \<Rightarrow> FileInfo \<Rightarrow> decision" where
  "spec_decision offset minimum f =
     (case find fst (skip_rules offset minimum f) of
        Some (c, d) \<Rightarrow> d
      | None \<Rightarrow> Attempt (to_string (number f + offset) @ ''.'' @ extension f))"

text \<open>
  A digit run is canonical when it is what \<^verbatim>\<open>std::to_string\<close> prints for its value:
  \<^verbatim>\<open>0\<close>, or digits that do not start with \<^verbatim>\<open>0\<close>. A file name is canonical when its
  digit run is.
\<close>

definition canonical :: "string \<Rightarrow> bool" where
  "canonical ds = (ds = ''0'' \<or> hd ds \<noteq> CHR ''0'')"

definition canonical_name :: "string \<Rightarrow> bool" where
  "canonical_name filename = canonical (takeWhile is_digit filename)"

definition all_canonical :: "directory \<Rightarrow> bool" where
  "all_canonical d = list_all (\<lambda>e. entry_file e \<noteq> None \<longrightarrow> canonical_name (fst e)) d"

text \<open>The original numbers of the renamed files, in the order of the renames.\<close>

definition renamed_numbers :: "out \<Rightarrow> int list" where
  "renamed_numbers log = map (\<lambda>p. original_number (fst p)) (renames log)"

definition decreasing :: "int list \<Rightarrow> bool" where
  "decreasing ns = sorted_wrt (\<lambda>x y. y \<le> x) ns"

definition strictly_decreasing :: "int list \<Rightarrow> bool" where
  "strictly_decreasing ns = sorted_wrt (\<lambda>x y. y < x) ns"

definition increasing :: "int list \<Rightarrow> bool" where
  "increasing ns = sorted_wrt (\<lambda>x y. x \<le> y) ns"

definition strictly_increasing :: "int list \<Rightarrow> bool" where
  "strictly_increasing ns = sorted_wrt (\<lambda>x y. x < y) ns"

text \<open>A file name that the pattern matches and whose digit run \<^verbatim>\<open>std::stoi\<close> rejects as too large.\<close>

definition overflows :: "string \<Rightarrow> bool" where
  "overflows filename =
     (case regex_match filename of
        None \<Rightarrow> False
      | Some (m1, m2) \<Rightarrow> stoi m1 = Inl Out_of_range)"

text \<open>
  What a successful \<^verbatim>\<open>fs::rename\<close> does to the directory read as a map from names to
  nodes, and the replay of a list of renames, first to last.
\<close>

definition rename_entry ::
  "string \<Rightarrow> string \<Rightarrow> (string \<rightharpoonup> node) \<Rightarrow> (string \<rightharpoonup> node)" where
  "rename_entry old_p new_p m =
     (case m old_p of
        None \<Rightarrow> m
      | Some nd \<Rightarrow> (m(old_p := None))(new_p \<mapsto> nd))"

fun replay :: "(string \<times> string) list \<Rightarrow> (string \<rightharpoonup> node) \<Rightarrow> (string \<rightharpoonup> node)" where
  "replay [] m = m"
| "replay ((old_p, new_p) # rs) m = replay rs (rename_entry old_p new_p m)"

text \<open>The lines that the scan loop writes.\<close>

fun is_warning :: "stream \<times> message \<Rightarrow> bool" where
  "is_warning (Cerr, Warning_could_not_convert f) = True"
| "is_warning (Cerr, Warning_out_of_range f) = True"
| "is_warning _ = False"

text \<open>A world in which the directory iteration and every rename are allowed.\<close>

definition quiet :: "directory \<Rightarrow> world" where
  "quiet d = \<lparr>entries = d, iteration_fails_after = None, rename_denied = (\<lambda>old_p new_p. False)\<rparr>"

text \<open>Directories used as examples (scenarios A and C are those of the specification).\<close>

definition scenario_A :: directory where
  "scenario_A = [(''5.txt'', Regular_file ''five''), (''7.txt'', Regular_file ''seven'')]"

definition scenario_C :: directory where
  "scenario_C =
     [(''2.txt'', Regular_file ''two''), (''5.txt'', Regular_file ''five''),
      (''9.txt'', Regular_file ''nine'')]"

definition same_number :: directory where
  "same_number = [(''5.txt'', Regular_file ''text''), (''5.jpg'', Regular_file ''picture'')]"

definition leading_zeros :: directory where
  "leading_zeros = [(''007.txt'', Regular_file ''bond'')]"

definition plain_seven :: directory where
  "plain_seven = [(''7.txt'', Regular_file ''seven'')]"

definition too_large :: directory where
  "too_large =
     [(''99999999999.x'', Regular_file ''huge''), (''5.txt'', Regular_file ''five''),
      (''notes'', Directory), (''7.txt'', Regular_file ''seven'')]"

definition with_link :: directory where
  "with_link =
     [(''3.txt'', Link_to_regular_file ''/data/three''), (''4.txt'', Regular_file ''four''),
      (''readme'', Regular_file ''text'')]"

text \<open>A world in which the system refuses to rename \<^verbatim>\<open>7.txt\<close>.\<close>

definition locked_seven :: "directory \<Rightarrow> world" where
  "locked_seven d =
     \<lparr>entries = d, iteration_fails_after = None,
      rename_denied = (\<lambda>old_p new_p. old_p = ''7.txt'')\<rparr>"

section \<open>Properties\<close>

subsection \<open>Digits\<close>

lemma digit_cases:
  "0 \<le> d \<Longrightarrow> d < 10 \<Longrightarrow>
   d = 0 \<or> d = 1 \<or> d = 2 \<or> d = 3 \<or> d = 4 \<or> d = 5 \<or> d = 6 \<or> d = 7 \<or> d = 8 \<or> d = (9::int)"
  by arith

lemma is_digit_digit_char: "0 \<le> d \<Longrightarrow> d < 10 \<Longrightarrow> is_digit (digit_char d)"
  using digit_cases [of d] by (auto simp: is_digit_def digit_char_def)

lemma digit_value_digit_char: "0 \<le> d \<Longrightarrow> d < 10 \<Longrightarrow> digit_value (digit_char d) = d"
  using digit_cases [of d] by (auto simp: digit_value_def digit_char_def)

lemma digit_char_digit_value: "is_digit c \<Longrightarrow> digit_char (digit_value c) = c"
  by (auto simp: is_digit_def digit_value_def digit_char_def)

lemma digit_value_range: "is_digit c \<Longrightarrow> 0 \<le> digit_value c \<and> digit_value c < 10"
  by (auto simp: is_digit_def digit_value_def)

lemma digit_char_zero_iff: "0 \<le> d \<Longrightarrow> d < 10 \<Longrightarrow> digit_char d = CHR ''0'' \<longleftrightarrow> d = 0"
  using digit_cases [of d] by (auto simp: digit_char_def)

lemma not_is_digit_dot: "\<not> is_digit CHR ''.''"
  by (simp add: is_digit_def)

lemma takeWhile_all: "list_all P xs \<Longrightarrow> takeWhile P xs = xs"
  by (simp add: list_all_iff)

lemma digits_value_snoc: "digits_value (ds @ [c]) = 10 * digits_value ds + digit_value c"
  by (simp add: digits_value_def)

lemma digits_value_Nil: "digits_value [] = 0"
  by (simp add: digits_value_def)

lemma digits_value_nonneg: "list_all is_digit ds \<Longrightarrow> 0 \<le> digits_value ds"
  by (induction ds rule: rev_induct)
    (auto simp: digits_value_snoc digits_value_Nil dest: digit_value_range)

lemma dec_digits: "0 \<le> n \<Longrightarrow> list_all is_digit (dec n)"
  by (induction n rule: dec.induct) (subst dec.simps, auto simp: is_digit_digit_char)

lemma dec_not_Nil: "dec n \<noteq> []"
  by (subst dec.simps) simp

text \<open>Reading back what \<open>dec\<close> printed gives the number.\<close>

lemma digits_value_dec: "0 \<le> n \<Longrightarrow> digits_value (dec n) = n"
proof (induction n rule: dec.induct)
  case (1 n)
  show ?case
  proof (cases "n < 10")
    case True
    with 1(2) show ?thesis
      by (subst dec.simps) (simp add: digits_value_def digit_value_digit_char)
  next
    case False
    with 1 have "digits_value (dec (n div 10)) = n div 10" by simp
    with False show ?thesis
      by (subst dec.simps) (simp add: digits_value_snoc digit_value_digit_char)
  qed
qed

lemma hd_dec_zero: "0 \<le> n \<Longrightarrow> hd (dec n) = CHR ''0'' \<Longrightarrow> n = 0"
proof (induction n rule: dec.induct)
  case (1 n)
  show ?case
  proof (cases "n < 10")
    case True
    with 1(2,3) show ?thesis
      by (subst (asm) dec.simps) (simp add: digit_char_zero_iff)
  next
    case False
    with 1(3) have "hd (dec (n div 10)) = CHR ''0''"
      by (subst (asm) dec.simps) (simp add: dec_not_Nil)
    with 1 False have "n div 10 = 0" by simp
    with False 1(2) show ?thesis by simp
  qed
qed

lemma dec_0: "dec 0 = ''0''"
  by (subst dec.simps) (simp add: digit_char_def)

lemma canonical_dec: "0 \<le> n \<Longrightarrow> canonical (dec n)"
  using hd_dec_zero [of n] dec_0 by (auto simp: canonical_def)

lemma digits_value_pos:
  "list_all is_digit ds \<Longrightarrow> ds \<noteq> [] \<Longrightarrow> hd ds \<noteq> CHR ''0'' \<Longrightarrow> 0 < digits_value ds"
proof (induction ds rule: rev_induct)
  case Nil
  then show ?case by simp
next
  case (snoc c ds)
  show ?case
  proof (cases "ds = []")
    case True
    with snoc(2,4) show ?thesis
      by (auto simp: digits_value_def digit_value_def is_digit_def)
  next
    case False
    with snoc have "0 < digits_value ds" by simp
    moreover from snoc(2) have "0 \<le> digit_value c" by (simp add: digit_value_range)
    ultimately show ?thesis by (simp add: digits_value_snoc)
  qed
qed

text \<open>Printing the value of a canonical digit run gives the digit run back.\<close>

lemma dec_digits_value:
  "list_all is_digit ds \<Longrightarrow> ds \<noteq> [] \<Longrightarrow> canonical ds \<Longrightarrow> dec (digits_value ds) = ds"
proof (induction ds rule: rev_induct)
  case Nil
  then show ?case by simp
next
  case (snoc c ds)
  from snoc(2) have c: "is_digit c" "0 \<le> digit_value c" "digit_value c < 10"
    by (simp_all add: digit_value_range)
  show ?case
  proof (cases "ds = []")
    case True
    with c show ?thesis
      by (subst dec.simps) (simp add: digits_value_def digit_char_digit_value)
  next
    case False
    with snoc(4) have hd: "hd ds \<noteq> CHR ''0''" by (cases ds) (auto simp: canonical_def)
    with snoc False have IH: "dec (digits_value ds) = ds" by (simp add: canonical_def)
    from snoc(2) False hd have "0 < digits_value ds" by (simp add: digits_value_pos)
    with c have "\<not> 10 * digits_value ds + digit_value c < 10"
      and "(10 * digits_value ds + digit_value c) div 10 = digits_value ds"
      and "(10 * digits_value ds + digit_value c) mod 10 = digit_value c"
      by auto
    with IH c show ?thesis
      by (subst dec.simps) (simp add: digits_value_snoc digit_char_digit_value)
  qed
qed

subsection \<open>The pattern\<close>

text \<open>
  \<open>regex_match\<close> accepts exactly the strings of the pattern: a non-empty digit run, a
  dot, a non-empty rest without line terminators.
\<close>

lemma regex_match_Some_iff:
  "regex_match s = Some (m1, m2) \<longleftrightarrow>
     s = m1 @ ''.'' @ m2 \<and> m1 \<noteq> [] \<and> list_all is_digit m1 \<and> m2 \<noteq> [] \<and> list_all any_char m2"
proof
  assume "regex_match s = Some (m1, m2)"
  then have *: "m1 = takeWhile is_digit s" "dropWhile is_digit s = CHR ''.'' # m2"
    "m1 \<noteq> []" "m2 \<noteq> []" "list_all any_char m2"
    by (auto simp: regex_match_def Let_def split: list.splits if_splits)
  have "s = takeWhile is_digit s @ dropWhile is_digit s" by simp
  with * have "s = m1 @ ''.'' @ m2" by simp
  moreover from * have "list_all is_digit m1"
    by (simp add: list_all_iff) (meson set_takeWhileD)
  ultimately show "s = m1 @ ''.'' @ m2 \<and> m1 \<noteq> [] \<and> list_all is_digit m1 \<and> m2 \<noteq> []
      \<and> list_all any_char m2"
    using * by simp
next
  assume a: "s = m1 @ ''.'' @ m2 \<and> m1 \<noteq> [] \<and> list_all is_digit m1 \<and> m2 \<noteq> []
      \<and> list_all any_char m2"
  then have "takeWhile is_digit s = m1" "dropWhile is_digit s = CHR ''.'' # m2"
    by (simp_all add: list_all_iff not_is_digit_dot)
  with a show "regex_match s = Some (m1, m2)"
    by (simp add: regex_match_def)
qed

lemma regex_match_takeWhile:
  "regex_match s = Some (m1, m2) \<Longrightarrow> takeWhile is_digit s = m1"
  by (auto simp: regex_match_def Let_def split: list.splits if_splits)

subsection \<open>Signed 32-bit arithmetic\<close>

lemma sint_word_of_int_32:
  "0 \<le> v \<Longrightarrow> v \<le> 2147483647 \<Longrightarrow> sint (word_of_int v :: int32) = v"
  by (simp add: sint_sbintrunc' signed_take_bit_int_eq_self)

text \<open>
  A non-negative \<^verbatim>\<open>int\<close> plus an \<^verbatim>\<open>int\<close> wraps around only to a negative value: when the
  sum is not negative, it is the exact sum.
\<close>

lemma sint_add_no_overflow:
  fixes n a :: int32
  assumes "0 \<le> sint n" "\<not> n + a <s 0"
  shows "sint (n + a) = sint n + sint a"
proof -
  have n: "sint n < 2147483648" using sint_lt [of n] by simp
  have a: "- 2147483648 \<le> sint a" "sint a < 2147483648"
    using sint_ge [of a] sint_lt [of a] by simp_all
  have eq: "sint (n + a) = (sint n + sint a + 2147483648) mod 4294967296 - 2147483648"
    by (simp add: sint_word_ariths signed_take_bit_eq_take_bit_shift take_bit_eq_mod)
  from assms(2) have nonneg: "0 \<le> sint (n + a)"
    by (simp add: word_sless_alt)
  show ?thesis
  proof (cases "sint n + sint a < 2147483648")
    case True
    with assms(1) a
    have "(sint n + sint a + 2147483648) mod 4294967296 = sint n + sint a + 2147483648"
      by (intro mod_pos_pos_trivial) simp_all
    with eq show ?thesis by simp
  next
    case False
    with n a
    have "(sint n + sint a + 2147483648) mod 4294967296
        = sint n + sint a + 2147483648 - 4294967296"
      by (simp add: mod_pos_geq)
    with eq n a nonneg show ?thesis by simp
  qed
qed

lemma stoi_digits:
  "list_all is_digit ds \<Longrightarrow> ds \<noteq> [] \<Longrightarrow> stoi ds = Inr n \<Longrightarrow>
     sint n = digits_value ds \<and> n = word_of_int (digits_value ds)
     \<and> 0 \<le> digits_value ds \<and> digits_value ds \<le> 2147483647"
  by (auto simp: stoi_def Let_def takeWhile_all digits_value_nonneg sint_word_of_int_32
      split: if_splits)


subsection \<open>The scan loop\<close>

lemma scan_entry_eq:
  "scan_entry e (files, log) =
     (files @ (case entry_file e of Some f \<Rightarrow> [f] | None \<Rightarrow> []), log @ snd (scan_entry e ([], [])))"
  by (cases e)
    (auto simp: entry_file_def matched_file_def split: option.splits sum.splits stoi_error.splits)

lemma fold_scan_entry:
  "fold scan_entry es (files, log) =
     (files @ List.map_filter entry_file es, log @ concat (map (\<lambda>e. snd (scan_entry e ([], []))) es))"
proof (induction es arbitrary: files log)
  case Nil
  then show ?case by simp
next
  case (Cons e es)
  have "fold scan_entry (e # es) (files, log) =
      fold scan_entry es (files @ (case entry_file e of Some f \<Rightarrow> [f] | None \<Rightarrow> []),
        log @ snd (scan_entry e ([], [])))"
    by (simp only: fold_simps scan_entry_eq [of e files log])
  then show ?case by (simp add: Cons split: option.splits)
qed

lemma scanned_eq: "scanned w = List.map_filter entry_file (entries w)"
  by (simp add: scanned_def fold_scan_entry)

lemma scan_entry_warning: "l \<in> set (snd (scan_entry e ([], []))) \<Longrightarrow> is_warning l"
  by (cases e) (auto split: option.splits sum.splits stoi_error.splits if_splits)

lemma fold_scan_entry_warnings:
  "l \<in> set (snd (fold scan_entry es ([], []))) \<Longrightarrow> is_warning l"
  by (auto simp: fold_scan_entry dest: scan_entry_warning)

lemma scan_entry_out_of_range:
  "is_regular_file nd \<Longrightarrow> regex_match name = Some (m1, m2) \<Longrightarrow> stoi m1 = Inl Out_of_range \<Longrightarrow>
     snd (scan_entry (name, nd) ([], [])) = [(Cerr, Warning_out_of_range name)]"
  by simp

lemma matched_file_Some:
  "matched_file name = Some f \<Longrightarrow>
     original_path f = name \<and> regex_match name = Some (takeWhile is_digit name, extension f)
     \<and> stoi (takeWhile is_digit name) = Inr (number f)
     \<and> sint (number f) = original_number name \<and> 0 \<le> original_number name
     \<and> original_number name \<le> 2147483647
     \<and> f = \<lparr>number = word_of_int (original_number name), original_path = name,
           extension = extension f\<rparr>"
proof -
  assume a: "matched_file name = Some f"
  then obtain m1 m2 n where m: "regex_match name = Some (m1, m2)" "stoi m1 = Inr n"
    "f = \<lparr>number = n, original_path = name, extension = m2\<rparr>"
    by (auto simp: matched_file_def split: option.splits sum.splits)
  from m(1) have t: "takeWhile is_digit name = m1" by (rule regex_match_takeWhile)
  from m(1) have d: "list_all is_digit m1" "m1 \<noteq> []" by (simp_all add: regex_match_Some_iff)
  have "sint n = digits_value m1" "0 \<le> digits_value m1" "digits_value m1 \<le> 2147483647"
    "n = word_of_int (digits_value m1)"
    using stoi_digits [OF d m(2)] by blast+
  with m t show ?thesis by (simp add: original_number_def)
qed

lemma scanned_matched:
  "f \<in> set (scanned w) \<Longrightarrow>
     matched_file (original_path f) = Some f
     \<and> (\<exists>nd. (original_path f, nd) \<in> set (entries w) \<and> is_regular_file nd)"
proof -
  assume "f \<in> set (scanned w)"
  then obtain name nd where e: "(name, nd) \<in> set (entries w)" "is_regular_file nd"
    "matched_file name = Some f"
    by (auto simp: scanned_eq List.map_filter_def entry_file_def split: if_splits)
  from e(3) have "original_path f = name" by (simp add: matched_file_Some)
  with e show ?thesis by auto
qed

subsection \<open>The sort\<close>

lemma set_insert_sorted: "set (insert_sorted cmp x ys) = insert x (set ys)"
  by (induction ys) auto

lemma mset_insert_sorted: "mset (insert_sorted cmp x ys) = add_mset x (mset ys)"
  by (induction ys) auto

lemma mset_std_sort: "mset (std_sort cmp xs) = mset xs"
  by (induction xs) (simp_all add: std_sort_def mset_insert_sorted)

lemma set_std_sort: "set (std_sort cmp xs) = set xs"
  using mset_std_sort [of cmp xs] by (metis set_mset_mset)

lemma sorted_insert_sorted:
  fixes key :: "'a \<Rightarrow> int"
  assumes "\<And>x y. cmp x y \<longleftrightarrow> key x < key y"
  shows "sorted_wrt (\<lambda>x y. key x \<le> key y) ys \<Longrightarrow>
    sorted_wrt (\<lambda>x y. key x \<le> key y) (insert_sorted cmp x ys)"
  by (induction ys) (auto simp: assms set_insert_sorted)

lemma sorted_std_sort:
  fixes key :: "'a \<Rightarrow> int"
  assumes "\<And>x y. cmp x y \<longleftrightarrow> key x < key y"
  shows "sorted_wrt (\<lambda>x y. key x \<le> key y) (std_sort cmp xs)"
  by (induction xs) (simp_all add: std_sort_def sorted_insert_sorted [of cmp key, OF assms])

lemma processing_order_set: "set (processing_order a w) = set (scanned w)"
  by (simp add: processing_order_def sort_files_def set_std_sort)

lemma processing_order_mset: "mset (processing_order a w) = mset (scanned w)"
  by (simp add: processing_order_def sort_files_def mset_std_sort)

lemma processing_order_desc:
  "0 \<le>s a \<Longrightarrow> sorted_wrt (\<lambda>x y. sint (number y) \<le> sint (number x)) (processing_order a w)"
  using sorted_std_sort [of compareFilesDesc "\<lambda>f. - sint (number f)" "scanned w"]
  by (simp add: processing_order_def sort_files_def compareFilesDesc_def word_sless_alt)

lemma processing_order_asc:
  "\<not> 0 \<le>s a \<Longrightarrow> sorted_wrt (\<lambda>x y. sint (number x) \<le> sint (number y)) (processing_order a w)"
  using sorted_std_sort [of compareFilesAsc "\<lambda>f. sint (number f)" "scanned w"]
  by (simp add: processing_order_def sort_files_def compareFilesAsc_def word_sless_alt)


subsection \<open>The rename loop\<close>

lemma find_skip_rules:
  "spec_decision a b f =
    (if number f <s b then Skip_minimum
     else if number f + a <s 0 then Skip_negative
     else if to_string (number f + a) @ ''.'' @ extension f = original_path f then Skip_identical
     else Attempt (to_string (number f + a) @ ''.'' @ extension f))"
  by (simp add: spec_decision_def skip_rules_def Let_def)

lemma rename_file_decision:
  "line_decision (snd (rename_file a b denied f d)) = Some (original_path f, spec_decision a b f)"
  by (auto simp: rename_file_def Let_def find_skip_rules split: sum.splits)

lemma snd_rename_pass_Cons:
  "snd (rename_pass a b denied (f # files) d) =
     snd (rename_file a b denied f d)
       # snd (rename_pass a b denied files (fst (rename_file a b denied f d)))"
  by (simp split: prod.splits)

lemma fst_rename_pass_Cons:
  "fst (rename_pass a b denied (f # files) d) =
     fst (rename_pass a b denied files (fst (rename_file a b denied f d)))"
  by (simp split: prod.splits)

lemma rename_pass_decisions:
  "decisions (snd (rename_pass a b denied files d)) =
     map (\<lambda>f. (original_path f, spec_decision a b f)) files"
proof (induction files arbitrary: d)
  case Nil
  then show ?case by (simp add: decisions_def)
next
  case (Cons f files)
  from Cons [of "fst (rename_file a b denied f d)"] show ?case
    by (simp add: decisions_def snd_rename_pass_Cons rename_file_decision del: rename_pass.simps)
qed

lemma attempted_decision:
  "attempted l = (case line_decision l of Some (f, Attempt new) \<Rightarrow> Some (f, new) | _ \<Rightarrow> None)"
  by (cases l rule: line_decision.cases) simp_all

lemma attempts_decisions:
  "(old, new) \<in> set (attempts log) \<longleftrightarrow> (old, Attempt new) \<in> set (decisions log)"
  by (induction log)
    (auto simp: attempts_def decisions_def attempted_decision split: option.splits decision.splits)

lemma renames_attempts: "p \<in> set (renames log) \<Longrightarrow> p \<in> set (attempts log)"
proof (induction log)
  case Nil
  then show ?case by (simp add: renames_def)
next
  case (Cons l log)
  then show ?case
    by (cases l rule: renamed.cases) (auto simp: renames_def attempts_def)
qed

lemma map_filter_append:
  "List.map_filter g (xs @ ys) = List.map_filter g xs @ List.map_filter g ys"
  by (simp add: List.map_filter_def)

lemma map_filter_warnings:
  "(\<And>l. is_warning l \<Longrightarrow> g l = None) \<Longrightarrow> (\<And>l. l \<in> set log \<Longrightarrow> is_warning l) \<Longrightarrow>
     List.map_filter g log = []"
  by (induction log) auto

text \<open>The shape of a run whose inputs parse and whose directory iteration succeeds.\<close>

lemma main_run:
  assumes "iteration_fails_after w = None"
  shows "main (Some a) (Some b) w =
    \<lparr>exit_code = 0,
     fs = fst (rename_pass a b (rename_denied w) (processing_order a w) (entries w)),
     printed = [(Cout, Banner), (Cout, Prompt_a), (Cout, Prompt_b), (Cout, Searching_for_files)]
       @ snd (fold scan_entry (entries w) ([], []))
       @ (if scanned w = [] then [(Cout, No_files_found)]
          else [snd (sort_files a (scanned w)), (Cout, Attempting_to_rename)]
            @ pass_lines a b w @ [(Cout, Renaming_process_complete), (Cout, Press_enter)])\<rparr>"
proof -
  from assms have it: "directory_iterator w = (entries w, False)"
    by (simp add: directory_iterator_def)
  obtain files warnings where sc: "fold scan_entry (entries w) ([], []) = (files, warnings)"
    by (cases "fold scan_entry (entries w) ([], [])")
  then have files: "files = scanned w" by (simp add: scanned_def)
  obtain sorted sorting where so: "sort_files a files = (sorted, sorting)"
    by (cases "sort_files a files")
  with files have sorted: "sorted = processing_order a w" by (simp add: processing_order_def)
  obtain d lines where rp: "rename_pass a b (rename_denied w) sorted (entries w) = (d, lines)"
    by (cases "rename_pass a b (rename_denied w) sorted (entries w)")
  with sorted have lines: "lines = pass_lines a b w" by (simp add: pass_lines_def)
  show ?thesis
  proof (cases "files = []")
    case True
    with files have "processing_order a w = []"
      by (simp add: processing_order_def sort_files_def std_sort_def)
    with True files sc it show ?thesis by (simp add: main_def)
  next
    case False
    with files sorted lines sc so rp it show ?thesis by (simp add: main_def)
  qed
qed

lemma sort_files_line:
  "snd (sort_files a files) = (Cout, Sorting_highest_to_lowest)
   \<or> snd (sort_files a files) = (Cout, Sorting_lowest_to_highest)"
  by (simp add: sort_files_def)

lemma map_filter_main:
  assumes g: "\<And>l. line_decision l = None \<Longrightarrow> g l = None"
    and "iteration_fails_after w = None"
  shows "List.map_filter g (printed (main (Some a) (Some b) w)) = List.map_filter g (pass_lines a b w)"
proof -
  have w: "List.map_filter g (snd (fold scan_entry (entries w) ([], []))) = []"
  proof (rule map_filter_warnings)
    fix l assume "is_warning l"
    then show "g l = None" by (cases l rule: is_warning.cases) (simp_all add: g)
  next
    fix l assume "l \<in> set (snd (fold scan_entry (entries w) ([], [])))"
    then show "is_warning l" by (rule fold_scan_entry_warnings)
  qed
  have s: "g (snd (sort_files a (scanned w))) = None"
    using sort_files_line [of a "scanned w"] by (auto simp: g)
  have e: "scanned w = [] \<Longrightarrow> pass_lines a b w = []"
    by (simp add: pass_lines_def processing_order_def sort_files_def std_sort_def)
  show ?thesis
    by (simp add: main_run [OF assms(2)] map_filter_append w s e g)
qed

lemma map_filter_main_failed:
  assumes g: "\<And>l. line_decision l = None \<Longrightarrow> g l = None"
    and "cin_a = None \<or> cin_b = None \<or> iteration_fails_after w \<noteq> None"
  shows "List.map_filter g (printed (main cin_a cin_b w)) = []
    \<and> fs (main cin_a cin_b w) = entries w \<and> exit_code (main cin_a cin_b w) = 1"
proof (cases cin_a)
  case None
  then show ?thesis by (simp add: main_def g)
next
  case a: (Some a)
  show ?thesis
  proof (cases cin_b)
    case None
    with a show ?thesis by (simp add: main_def g)
  next
    case b: (Some b)
    with a assms(2) obtain k where k: "iteration_fails_after w = Some k" by auto
    have w: "List.map_filter g (snd (fold scan_entry (take k (entries w)) ([], []))) = []"
    proof (rule map_filter_warnings)
      fix l assume "is_warning l"
      then show "g l = None" by (cases l rule: is_warning.cases) (simp_all add: g)
    next
      fix l assume "l \<in> set (snd (fold scan_entry (take k (entries w)) ([], [])))"
      then show "is_warning l" by (rule fold_scan_entry_warnings)
    qed
    from a b k w show ?thesis
      by (auto simp: main_def directory_iterator_def map_filter_append g split: prod.splits)
  qed
qed

subsection \<open>What a run decides and attempts\<close>


lemma decisions_main:
  assumes "(name, d) \<in> set (decisions (printed (main cin_a cin_b w)))"
  shows "\<exists>a b f. cin_a = Some a \<and> cin_b = Some b \<and> iteration_fails_after w = None
    \<and> f \<in> set (scanned w) \<and> matched_file name = Some f \<and> d = spec_decision a b f"
proof (cases "cin_a = None \<or> cin_b = None \<or> iteration_fails_after w \<noteq> None")
  case True
  then have "decisions (printed (main cin_a cin_b w)) = []"
    unfolding decisions_def by (intro map_filter_main_failed [THEN conjunct1]) simp_all
  with assms show ?thesis by simp
next
  case False
  then obtain a b where ab: "cin_a = Some a" "cin_b = Some b" "iteration_fails_after w = None"
    by auto
  then have "decisions (printed (main cin_a cin_b w)) = decisions (pass_lines a b w)"
    unfolding decisions_def by (simp add: map_filter_main)
  with assms obtain f where f: "f \<in> set (processing_order a w)" "name = original_path f"
    "d = spec_decision a b f"
    by (auto simp: pass_lines_def rename_pass_decisions)
  then have "f \<in> set (scanned w)" by (simp add: processing_order_set)
  with f ab show ?thesis using scanned_matched [of f w] by auto
qed

lemma spec_decision_Attempt:
  "spec_decision a b f = Attempt new \<Longrightarrow>
     \<not> number f <s b \<and> \<not> number f + a <s 0
     \<and> new = to_string (number f + a) @ ''.'' @ extension f \<and> new \<noteq> original_path f"
  by (auto simp: find_skip_rules split: if_splits)

lemma attempts_main:
  assumes "(old, new) \<in> set (attempts (printed (main cin_a cin_b w)))"
  shows "\<exists>a b f. cin_a = Some a \<and> cin_b = Some b \<and> iteration_fails_after w = None
    \<and> f \<in> set (scanned w) \<and> matched_file old = Some f
    \<and> \<not> number f <s b \<and> \<not> number f + a <s 0
    \<and> new = to_string (number f + a) @ ''.'' @ extension f \<and> new \<noteq> old"
proof -
  from assms have "(old, Attempt new) \<in> set (decisions (printed (main cin_a cin_b w)))"
    by (simp add: attempts_decisions)
  from decisions_main [OF this] obtain a b f where
    *: "cin_a = Some a" "cin_b = Some b" "iteration_fails_after w = None" "f \<in> set (scanned w)"
     "matched_file old = Some f" "Attempt new = spec_decision a b f"
    by blast
  from *(5) have "original_path f = old" by (simp add: matched_file_Some)
  with * spec_decision_Attempt [of a b f new] show ?thesis by auto
qed

text \<open>What an attempted rename computes: the exact sum, not negative, printed in decimal.\<close>

lemma attempt_target:
  assumes "matched_file old = Some f" "\<not> number f + a <s 0"
  shows "sint (number f + a) = original_number old + sint a"
    and "0 \<le> original_number old + sint a"
    and "original_number old + sint a \<le> 2147483647"
    and "to_string (number f + a) = dec (original_number old + sint a)"
proof -
  from assms(1) have n: "sint (number f) = original_number old" "0 \<le> original_number old"
    by (simp_all add: matched_file_Some)
  with assms(2) show 1: "sint (number f + a) = original_number old + sint a"
    using sint_add_no_overflow [of "number f" a] by simp
  from assms(2) have "0 \<le> sint (number f + a)" by (simp add: word_sless_alt)
  with 1 show 2: "0 \<le> original_number old + sint a" by simp
  from 1 sint_lt [of "number f + a"] show "original_number old + sint a \<le> 2147483647" by simp
  from 1 2 show "to_string (number f + a) = dec (original_number old + sint a)"
    by (simp add: to_string_def)
qed

lemma original_number_dec:
  "0 \<le> n \<Longrightarrow> original_number (dec n @ ''.'' @ ext) = n"
  using dec_digits [of n]
  by (simp add: original_number_def list_all_iff not_is_digit_dot digits_value_dec)

lemma matched_file_dec:
  assumes "0 \<le> n" "n \<le> 2147483647" "ext \<noteq> []" "list_all any_char ext"
  shows "regex_match (dec n @ ''.'' @ ext) = Some (dec n, ext)"
    and "matched_file (dec n @ ''.'' @ ext) =
      Some \<lparr>number = word_of_int n, original_path = dec n @ ''.'' @ ext, extension = ext\<rparr>"
proof -
  from assms show r: "regex_match (dec n @ ''.'' @ ext) = Some (dec n, ext)"
    by (simp add: regex_match_Some_iff dec_digits dec_not_Nil)
  from assms have "stoi (dec n) = Inr (word_of_int n)"
    by (simp add: stoi_def takeWhile_all dec_digits dec_not_Nil digits_value_dec)
  with r show "matched_file (dec n @ ''.'' @ ext) =
      Some \<lparr>number = word_of_int n, original_path = dec n @ ''.'' @ ext, extension = ext\<rparr>"
    by (simp add: matched_file_def)
qed

subsection \<open>The directory after the rename loop\<close>

lemma renamed_rename_file:
  "renamed (snd (rename_file a b denied f d)) = Some (old, new) \<Longrightarrow>
     old = original_path f
     \<and> fs_rename denied old new d = Inr (fst (rename_file a b denied f d))"
  by (auto simp: rename_file_def Let_def split: if_splits sum.splits)

lemma not_renamed_rename_file:
  "renamed (snd (rename_file a b denied f d)) = None \<Longrightarrow> fst (rename_file a b denied f d) = d"
  by (auto simp: rename_file_def Let_def split: if_splits sum.splits)

lemma renames_Cons:
  "renames (l # log) = (case renamed l of None \<Rightarrow> renames log | Some p \<Rightarrow> p # renames log)"
  by (simp add: renames_def split: option.splits)

lemma renames_sources:
  "p \<in> set (renames (snd (rename_pass a b denied files d))) \<Longrightarrow> fst p \<in> original_path ` set files"
proof (induction files arbitrary: d)
  case Nil
  then show ?case by (simp add: renames_def)
next
  case (Cons f files)
  then show ?case
    by (cases p)
      (auto simp: snd_rename_pass_Cons renames_Cons simp del: rename_pass.simps
        split: option.splits dest: renamed_rename_file)
qed

lemma renames_sorted:
  assumes "sorted_wrt R (map (\<lambda>f. original_number (original_path f)) files)"
  shows "sorted_wrt R (renamed_numbers (snd (rename_pass a b denied files d)))"
  using assms
proof (induction files arbitrary: d)
  case Nil
  then show ?case by (simp add: renamed_numbers_def renames_def)
next
  case (Cons f files)
  let ?d1 = "fst (rename_file a b denied f d)"
  from Cons have IH: "sorted_wrt R (renamed_numbers (snd (rename_pass a b denied files ?d1)))"
    by simp
  show ?case
  proof (cases "renamed (snd (rename_file a b denied f d))")
    case None
    with IH show ?thesis
      by (simp add: renamed_numbers_def snd_rename_pass_Cons renames_Cons del: rename_pass.simps)
  next
    case (Some p)
    then have p: "fst p = original_path f" by (cases p) (auto dest: renamed_rename_file)
    have "R (original_number (fst p)) (original_number (fst q))"
      if "q \<in> set (renames (snd (rename_pass a b denied files ?d1)))" for q
    proof -
      from renames_sources [OF that] obtain g where "g \<in> set files" "fst q = original_path g"
        by auto
      with Cons.prems p show ?thesis by auto
    qed
    with IH Some show ?thesis
      by (simp add: renamed_numbers_def snd_rename_pass_Cons renames_Cons del: rename_pass.simps)
  qed
qed

lemma sorted_wrt_distinct_strict:
  "sorted_wrt R xs \<Longrightarrow> distinct xs \<Longrightarrow> sorted_wrt (\<lambda>x y. R x y \<and> x \<noteq> y) xs"
  by (induction xs) auto

lemma renames_main:
  "iteration_fails_after w = None \<Longrightarrow>
     renames (printed (main (Some a) (Some b) w)) = renames (pass_lines a b w)"
  unfolding renames_def by (rule map_filter_main) (auto elim: line_decision.elims)

lemma renames_main_failed:
  "cin_a = None \<or> cin_b = None \<or> iteration_fails_after w \<noteq> None \<Longrightarrow>
     renames (printed (main cin_a cin_b w)) = []"
  unfolding renames_def
  by (rule map_filter_main_failed [THEN conjunct1]) (auto elim: line_decision.elims)

lemma processing_order_numbers:
  assumes "sorted_wrt (\<lambda>x y. R (sint (number x)) (sint (number y))) (processing_order a w)"
  shows "sorted_wrt R (map (\<lambda>f. original_number (original_path f)) (processing_order a w))"
proof -
  have "sint (number f) = original_number (original_path f)" if "f \<in> set (processing_order a w)" for f
    using that scanned_matched [of f w] matched_file_Some [of "original_path f" f]
    by (simp add: processing_order_set)
  with assms show ?thesis
    by (simp add: sorted_wrt_map) (erule sorted_wrt_mono_rel [rotated], simp)
qed

subsection \<open>Offset zero\<close>

lemma canonical_skip:
  assumes "matched_file name = Some f" "canonical_name name"
  shows "spec_decision 0 b f = Skip_minimum \<or> spec_decision 0 b f = Skip_identical"
proof -
  let ?m1 = "takeWhile is_digit name"
  from assms(1) have m: "regex_match name = Some (?m1, extension f)"
    "sint (number f) = original_number name" "0 \<le> original_number name"
    "original_path f = name"
    by (simp_all add: matched_file_Some)
  from m(1) [unfolded regex_match_Some_iff]
  have d: "list_all is_digit ?m1" "?m1 \<noteq> []" "name = ?m1 @ ''.'' @ extension f"
    by blast+
  from d(1,2) assms(2) have "dec (original_number name) = ?m1"
    unfolding original_number_def canonical_name_def by (rule dec_digits_value)
  with m(2,3) have "to_string (number f) = ?m1" by (simp add: to_string_def)
  with d(3) m(4) have "to_string (number f) @ ''.'' @ extension f = original_path f" by simp
  moreover from m(2,3) have "\<not> number f <s 0" by (simp add: word_sless_alt)
  ultimately show ?thesis by (simp add: find_skip_rules)
qed

lemma rename_pass_no_renames:
  "renames (snd (rename_pass a b denied files d)) = [] \<Longrightarrow>
     fst (rename_pass a b denied files d) = d"
proof (induction files arbitrary: d)
  case Nil
  then show ?case by simp
next
  case (Cons f files)
  from Cons.prems have n: "renamed (snd (rename_file a b denied f d)) = None"
    and r: "renames (snd (rename_pass a b denied files (fst (rename_file a b denied f d)))) = []"
    by (auto simp: snd_rename_pass_Cons renames_Cons simp del: rename_pass.simps
        split: option.splits)
  from n have "fst (rename_file a b denied f d) = d" by (rule not_renamed_rename_file)
  with r Cons.IH [of d] show ?case
    by (simp add: fst_rename_pass_Cons del: rename_pass.simps)
qed

lemma renamed_line_decision: "line_decision l = None \<Longrightarrow> renamed l = None"
  by (auto elim: line_decision.elims)

lemma fs_main_no_renames:
  assumes "renames (printed (main cin_a cin_b w)) = []"
  shows "fs (main cin_a cin_b w) = entries w"
proof (cases "cin_a = None \<or> cin_b = None \<or> iteration_fails_after w \<noteq> None")
  case True
  from map_filter_main_failed [of renamed, OF renamed_line_decision this]
  show ?thesis by simp
next
  case False
  then obtain a b where ab: "cin_a = Some a" "cin_b = Some b" "iteration_fails_after w = None"
    by auto
  with assms have "renames (pass_lines a b w) = []" by (simp add: renames_main)
  then have "fst (rename_pass a b (rename_denied w) (processing_order a w) (entries w)) = entries w"
    unfolding pass_lines_def by (rule rename_pass_no_renames)
  with ab show ?thesis by (simp add: main_run)
qed

lemma all_canonical_skips:
  assumes "all_canonical (entries w)"
    and "(name, d) \<in> set (decisions (printed (main (Some 0) cin_b w)))"
  shows "d = Skip_minimum \<or> d = Skip_identical"
proof -
  from decisions_main [OF assms(2)] obtain b f where
    f: "f \<in> set (scanned w)" "matched_file name = Some f" "d = spec_decision 0 b f"
    by auto
  from f(1) obtain e where e: "e \<in> set (entries w)" "entry_file e = Some f"
    by (auto simp: scanned_eq List.map_filter_def)
  then have "matched_file (fst e) = Some f"
    by (auto simp: entry_file_def split: if_splits)
  with f(2) have "fst e = name" using matched_file_Some by metis
  with assms(1) e have "canonical_name name"
    by (auto simp: all_canonical_def list_all_iff)
  from canonical_skip [OF f(2) this] f(3) show ?thesis by simp
qed

subsection \<open>Failures of single files\<close>

lemma overflows_not_matched: "overflows name \<Longrightarrow> matched_file name = None"
  by (auto simp: overflows_def matched_file_def split: option.splits)

lemma overflow_warning:
  assumes "(name, nd) \<in> set es" "is_regular_file nd" "overflows name"
  shows "(Cerr, Warning_out_of_range name) \<in> set (snd (fold scan_entry es ([], [])))"
proof -
  from assms(2,3) have "snd (scan_entry (name, nd) ([], [])) = [(Cerr, Warning_out_of_range name)]"
    by (auto simp: overflows_def split: option.splits)
  with assms(1) show ?thesis
    by (force simp: fold_scan_entry)
qed

lemma printed_main_run:
  assumes "iteration_fails_after w = None"
  shows "set (snd (fold scan_entry (entries w) ([], []))) \<subseteq> set (printed (main (Some a) (Some b) w))"
    and "set (pass_lines a b w) \<subseteq> set (printed (main (Some a) (Some b) w))"
proof -
  have e: "scanned w = [] \<Longrightarrow> pass_lines a b w = []"
    by (simp add: pass_lines_def processing_order_def sort_files_def std_sort_def)
  show "set (snd (fold scan_entry (entries w) ([], []))) \<subseteq> set (printed (main (Some a) (Some b) w))"
    by (auto simp: main_run [OF assms])
  show "set (pass_lines a b w) \<subseteq> set (printed (main (Some a) (Some b) w))"
    using e by (auto simp: main_run [OF assms])
qed

lemma attempted_rename_file:
  "attempted (snd (rename_file a b denied f d)) = Some p \<Longrightarrow>
     snd (rename_file a b denied f d) = (Cout, Renamed (fst p) (snd p))
     \<or> snd (rename_file a b denied f d) = (Cerr, Error_renaming (fst p) (snd p))
        \<and> fst (rename_file a b denied f d) = d"
  by (auto simp: rename_file_def Let_def split: if_splits sum.splits)

lemma attempts_Cons:
  "attempts (l # log) = (case attempted l of None \<Rightarrow> attempts log | Some p \<Rightarrow> p # attempts log)"
  by (simp add: attempts_def split: option.splits)

lemma failed_attempt_reported:
  assumes "p \<in> set (attempts (snd (rename_pass a b denied files d)))"
    and "p \<notin> set (renames (snd (rename_pass a b denied files d)))"
  shows "(Cerr, Error_renaming (fst p) (snd p)) \<in> set (snd (rename_pass a b denied files d))"
  using assms
proof (induction files arbitrary: d)
  case Nil
  then show ?case by (simp add: attempts_def)
next
  case (Cons f files)
  let ?l = "snd (rename_file a b denied f d)" and ?d1 = "fst (rename_file a b denied f d)"
  show ?case
  proof (cases "attempted ?l = Some p")
    case True
    from attempted_rename_file [OF this] Cons.prems(2) show ?thesis
      by (auto simp: snd_rename_pass_Cons renames_Cons simp del: rename_pass.simps)
  next
    case False
    with Cons.prems(1) have "p \<in> set (attempts (snd (rename_pass a b denied files ?d1)))"
      by (auto simp: snd_rename_pass_Cons attempts_Cons simp del: rename_pass.simps
          split: option.splits)
    moreover from Cons.prems(2) have "p \<notin> set (renames (snd (rename_pass a b denied files ?d1)))"
      by (auto simp: snd_rename_pass_Cons renames_Cons simp del: rename_pass.simps
          split: option.splits)
    ultimately show ?thesis
      using Cons.IH [of ?d1] by (simp add: snd_rename_pass_Cons del: rename_pass.simps)
  qed
qed

lemma attempts_main_run:
  "iteration_fails_after w = None \<Longrightarrow>
     attempts (printed (main (Some a) (Some b) w)) = attempts (pass_lines a b w)"
  unfolding attempts_def by (rule map_filter_main) (simp add: attempted_decision)

subsection \<open>The frame of the rename loop\<close>

lemma fs_rename_map_of:
  assumes "fs_rename denied old_p new_p d = Inr d'"
  shows "map_of d' = ((map_of d)(old_p := None))(new_p := map_of d old_p)"
    and "map_of d old_p \<noteq> None"
proof -
  from assms obtain nd where nd: "map_of d old_p = Some nd"
    by (auto simp: fs_rename_def split: option.splits)
  then show "map_of d old_p \<noteq> None" by simp
  show "map_of d' = ((map_of d)(old_p := None))(new_p := map_of d old_p)"
  proof (cases "old_p = new_p")
    case True
    with assms nd have "d' = d" by (auto simp: fs_rename_def split: if_splits)
    with True nd show ?thesis by (auto simp: fun_eq_iff)
  next
    case False
    with assms nd have "d' = AList.update new_p nd (AList.delete old_p d)"
      by (auto simp: fs_rename_def split: if_splits)
    with nd show ?thesis by (simp add: update_conv' delete_conv')
  qed
qed

lemma rename_file_frame:
  assumes "renamed (snd (rename_file a b denied f d)) = Some (old, new)"
  shows "map_of (fst (rename_file a b denied f d)) = ((map_of d)(old := None))(new := map_of d old)"
    and "map_of d old \<noteq> None"
  using renamed_rename_file [OF assms] fs_rename_map_of [of denied old new d] by auto

lemma rename_pass_frame:
  assumes "name \<notin> fst ` set (renames (snd (rename_pass a b denied files d)))"
    and "name \<notin> snd ` set (renames (snd (rename_pass a b denied files d)))"
  shows "map_of (fst (rename_pass a b denied files d)) name = map_of d name"
  using assms
proof (induction files arbitrary: d)
  case Nil
  then show ?case by simp
next
  case (Cons f files)
  let ?l = "snd (rename_file a b denied f d)" and ?d1 = "fst (rename_file a b denied f d)"
  show ?case
  proof (cases "renamed ?l")
    case None
    then have "?d1 = d" by (rule not_renamed_rename_file)
    with None Cons.prems Cons.IH [of d] show ?thesis
      by (simp add: snd_rename_pass_Cons fst_rename_pass_Cons renames_Cons del: rename_pass.simps)
  next
    case (Some p)
    obtain old new where p: "p = (old, new)" by (cases p)
    with Some Cons.prems have n: "name \<noteq> old" "name \<noteq> new"
      and r: "name \<notin> fst ` set (renames (snd (rename_pass a b denied files ?d1)))"
        "name \<notin> snd ` set (renames (snd (rename_pass a b denied files ?d1)))"
      by (auto simp: snd_rename_pass_Cons renames_Cons simp del: rename_pass.simps)
    from Some p have "map_of ?d1 = ((map_of d)(old := None))(new := map_of d old)"
      by (intro rename_file_frame) simp
    with n have "map_of ?d1 name = map_of d name" by simp
    with Cons.IH [OF r] show ?thesis
      by (simp add: fst_rename_pass_Cons del: rename_pass.simps)
  qed
qed

lemma rename_file_ran: "ran (map_of (fst (rename_file a b denied f d))) \<subseteq> ran (map_of d)"
proof (cases "renamed (snd (rename_file a b denied f d))")
  case None
  then show ?thesis by (simp add: not_renamed_rename_file)
next
  case (Some p)
  obtain old new where p: "p = (old, new)" by (cases p)
  with Some have "map_of (fst (rename_file a b denied f d))
      = ((map_of d)(old := None))(new := map_of d old)"
    by (intro rename_file_frame) simp
  then show ?thesis by (auto simp: ran_def split: if_splits)
qed

lemma rename_pass_ran: "ran (map_of (fst (rename_pass a b denied files d))) \<subseteq> ran (map_of d)"
proof (induction files arbitrary: d)
  case Nil
  then show ?case by simp
next
  case (Cons f files)
  from Cons [of "fst (rename_file a b denied f d)"] rename_file_ran [of a b denied f d]
  show ?case by (simp add: fst_rename_pass_Cons del: rename_pass.simps)
qed

lemma rename_entry_Some:
  "m old_p = Some nd \<Longrightarrow> rename_entry old_p new_p m = (m(old_p := None))(new_p \<mapsto> nd)"
  by (simp add: rename_entry_def)

lemma fs_rename_rename_entry:
  assumes "fs_rename denied old_p new_p d = Inr d'"
  shows "map_of d' = rename_entry old_p new_p (map_of d)"
  using fs_rename_map_of [OF assms] by (auto simp: rename_entry_def)

lemma rename_file_rename_entry:
  assumes "renamed (snd (rename_file a b denied f d)) = Some (old, new)"
  shows "map_of (fst (rename_file a b denied f d)) = rename_entry old new (map_of d)"
  using renamed_rename_file [OF assms] fs_rename_rename_entry [of denied old new d] by auto

text \<open>The directory after the rename loop is the directory before it with the performed
  renames replayed.\<close>

lemma rename_pass_replay:
  "map_of (fst (rename_pass a b denied files d))
     = replay (renames (snd (rename_pass a b denied files d))) (map_of d)"
proof (induction files arbitrary: d)
  case Nil
  then show ?case by (simp add: renames_def)
next
  case (Cons f files)
  let ?l = "snd (rename_file a b denied f d)" and ?d1 = "fst (rename_file a b denied f d)"
  show ?case
  proof (cases "renamed ?l")
    case None
    then have "?d1 = d" by (rule not_renamed_rename_file)
    with None Cons [of d] show ?thesis
      by (simp add: snd_rename_pass_Cons fst_rename_pass_Cons renames_Cons del: rename_pass.simps)
  next
    case (Some p)
    obtain old new where p: "p = (old, new)" by (cases p)
    with Some have "map_of ?d1 = rename_entry old new (map_of d)"
      by (intro rename_file_rename_entry) simp
    with Some p Cons [of ?d1] show ?thesis
      by (simp add: snd_rename_pass_Cons fst_rename_pass_Cons renames_Cons del: rename_pass.simps)
  qed
qed

lemma length_update_le: "length (AList.update k v al) \<le> Suc (length al)"
  by (induction al) auto

lemma length_delete_less: "k \<in> fst ` set al \<Longrightarrow> length (AList.delete k al) < length al"
proof (induction al)
  case Nil
  then show ?case by simp
next
  case (Cons e al)
  show ?case
  proof (cases "fst e = k")
    case True
    with length_delete_le [of k al] show ?thesis by (cases e) (simp add: less_Suc_eq_le)
  next
    case False
    with Cons.prems have "k \<in> fst ` set al" by auto
    with Cons.IH False show ?thesis by (cases e) simp
  qed
qed

lemma fs_rename_length:
  assumes "fs_rename denied old_p new_p d = Inr d'"
  shows "length d' \<le> length d"
proof -
  from assms obtain nd where nd: "map_of d old_p = Some nd"
    by (auto simp: fs_rename_def split: option.splits)
  then have "old_p \<in> fst ` set d" by (metis map_of_eq_None_iff option.distinct(1))
  then have "length (AList.delete old_p d) < length d" by (rule length_delete_less)
  with length_update_le [of new_p nd "AList.delete old_p d"]
  have "length (AList.update new_p nd (AList.delete old_p d)) \<le> length d" by simp
  with assms nd show ?thesis by (auto simp: fs_rename_def split: if_splits)
qed

lemma fs_rename_distinct:
  assumes "fs_rename denied old_p new_p d = Inr d'" "distinct (map fst d)"
  shows "distinct (map fst d')"
  using assms
  by (auto simp: fs_rename_def distinct_update distinct_delete split: option.splits if_splits)

lemma rename_file_length: "length (fst (rename_file a b denied f d)) \<le> length d"
  by (auto simp: rename_file_def Let_def fs_rename_length split: sum.splits)

lemma rename_file_distinct:
  "distinct (map fst d) \<Longrightarrow> distinct (map fst (fst (rename_file a b denied f d)))"
  by (auto simp: rename_file_def Let_def split: sum.splits dest: fs_rename_distinct)

lemma rename_pass_length: "length (fst (rename_pass a b denied files d)) \<le> length d"
proof (induction files arbitrary: d)
  case Nil
  then show ?case by simp
next
  case (Cons f files)
  from Cons [of "fst (rename_file a b denied f d)"] rename_file_length [of a b denied f d]
  show ?case by (simp add: fst_rename_pass_Cons del: rename_pass.simps)
qed

lemma rename_pass_distinct:
  "distinct (map fst d) \<Longrightarrow> distinct (map fst (fst (rename_pass a b denied files d)))"
proof (induction files arbitrary: d)
  case Nil
  then show ?case by simp
next
  case (Cons f files)
  from Cons.IH [of "fst (rename_file a b denied f d)"] rename_file_distinct [OF Cons.prems]
  show ?case by (simp add: fst_rename_pass_Cons del: rename_pass.simps)
qed

text \<open>
  Every entry after a rename is an entry before it, and different entries after it are
  different entries before it: \<open>origin\<close> gives the name an entry had.
\<close>

lemma rename_entry_origin:
  "\<exists>origin. inj_on origin (dom (rename_entry old_p new_p m))
     \<and> (\<forall>n \<in> dom (rename_entry old_p new_p m). rename_entry old_p new_p m n = m (origin n))"
proof (cases "m old_p")
  case None
  then have "rename_entry old_p new_p m = m" by (simp add: rename_entry_def)
  then show ?thesis by (intro exI [of _ id]) simp
next
  case (Some nd)
  let ?g = "id(new_p := old_p)"
  from Some have r: "rename_entry old_p new_p m = (m(old_p := None))(new_p \<mapsto> nd)"
    by (rule rename_entry_Some)
  have "inj_on ?g (dom (rename_entry old_p new_p m))"
    unfolding r by (auto simp: inj_on_def split: if_splits)
  moreover have "\<forall>n \<in> dom (rename_entry old_p new_p m). rename_entry old_p new_p m n = m (?g n)"
    unfolding r using Some by (auto split: if_splits)
  ultimately show ?thesis by blast
qed

lemma origin_trans:
  assumes "inj_on g1 (dom m1)" "\<forall>n \<in> dom m1. m1 n = m (g1 n)"
    and "inj_on g2 (dom m2)" "\<forall>n \<in> dom m2. m2 n = m1 (g2 n)"
  shows "inj_on (g1 \<circ> g2) (dom m2) \<and> (\<forall>n \<in> dom m2. m2 n = m ((g1 \<circ> g2) n))"
proof -
  from assms(4) have sub: "g2 ` dom m2 \<subseteq> dom m1" by (auto simp: dom_def)
  with assms(1,3) have "inj_on (g1 \<circ> g2) (dom m2)"
    by (meson comp_inj_on inj_on_subset)
  moreover have "m2 n = m ((g1 \<circ> g2) n)" if "n \<in> dom m2" for n
  proof -
    from that sub have "g2 n \<in> dom m1" by blast
    with assms(2) have "m1 (g2 n) = m (g1 (g2 n))" by blast
    with that assms(4) show ?thesis by simp
  qed
  ultimately show ?thesis by blast
qed

lemma replay_origin:
  "\<exists>origin. inj_on origin (dom (replay rs m)) \<and> (\<forall>n \<in> dom (replay rs m). replay rs m n = m (origin n))"
proof (induction rs arbitrary: m)
  case Nil
  show ?case by (intro exI [of _ id]) simp
next
  case (Cons r rs)
  obtain old new where r: "r = (old, new)" by (cases r)
  let ?m1 = "rename_entry old new m"
  from rename_entry_origin [of old new m] obtain g1 where
    g1: "inj_on g1 (dom ?m1)" "\<forall>n \<in> dom ?m1. ?m1 n = m (g1 n)" by blast
  from Cons [of ?m1] obtain g2 where
    g2: "inj_on g2 (dom (replay rs ?m1))" "\<forall>n \<in> dom (replay rs ?m1). replay rs ?m1 n = ?m1 (g2 n)"
    by blast
  from origin_trans [OF g1 g2]
  have "inj_on (g1 \<circ> g2) (dom (replay (r # rs) m))
    \<and> (\<forall>n \<in> dom (replay (r # rs) m). replay (r # rs) m n = m ((g1 \<circ> g2) n))"
    unfolding r replay.simps .
  then show ?case by blast
qed

lemma fs_main_replay:
  "map_of (fs (main cin_a cin_b w)) = replay (renames (printed (main cin_a cin_b w))) (map_of (entries w))"
proof (cases "cin_a = None \<or> cin_b = None \<or> iteration_fails_after w \<noteq> None")
  case True
  from map_filter_main_failed [of renamed, OF renamed_line_decision True]
  show ?thesis by (simp add: renames_def)
next
  case False
  then obtain a b where ab: "cin_a = Some a" "cin_b = Some b" "iteration_fails_after w = None"
    by auto
  then have fs: "fs (main cin_a cin_b w)
      = fst (rename_pass a b (rename_denied w) (processing_order a w) (entries w))"
    by (simp add: main_run)
  from ab have rn: "renames (printed (main cin_a cin_b w))
      = renames (snd (rename_pass a b (rename_denied w) (processing_order a w) (entries w)))"
    by (simp add: renames_main pass_lines_def)
  show ?thesis unfolding fs rn by (rule rename_pass_replay)
qed

lemma fs_main_length_distinct:
  "length (fs (main cin_a cin_b w)) \<le> length (entries w)"
  "distinct (map fst (entries w)) \<Longrightarrow> distinct (map fst (fs (main cin_a cin_b w)))"
proof -
  have *: "fs (main cin_a cin_b w) = entries w
    \<or> (\<exists>a b. fs (main cin_a cin_b w)
          = fst (rename_pass a b (rename_denied w) (processing_order a w) (entries w)))"
  proof (cases "cin_a = None \<or> cin_b = None \<or> iteration_fails_after w \<noteq> None")
    case True
    from map_filter_main_failed [of renamed, OF renamed_line_decision True]
    show ?thesis by simp
  next
    case False
    then obtain a b where "cin_a = Some a" "cin_b = Some b" "iteration_fails_after w = None"
      by auto
    then show ?thesis by (auto simp: main_run)
  qed
  from * show "length (fs (main cin_a cin_b w)) \<le> length (entries w)"
    using rename_pass_length by auto
  from * show "distinct (map fst (fs (main cin_a cin_b w)))" if "distinct (map fst (entries w))"
    using rename_pass_distinct [OF that] that by auto
qed

section \<open>The claims\<close>

text \<open>
  C1, as the specification states it: the renames are performed in strictly decreasing
  order of original number when \<open>0 \<le> a\<close>. It fails when two matched files have the
  same number: \<^verbatim>\<open>5.txt\<close> and \<^verbatim>\<open>5.jpg\<close> are both renamed with \<open>a = 1\<close>, and the original
  numbers of the two renames are 5 and 5.
\<close>

theorem rename_order_not_strict:
  "0 \<le>s (1 :: int32)
   \<and> renames (printed (main (Some 1) (Some 0) (quiet same_number)))
       = [(''5.txt'', ''6.txt''), (''5.jpg'', ''6.jpg'')]
   \<and> renamed_numbers (printed (main (Some 1) (Some 0) (quiet same_number))) = [5, 5]
   \<and> \<not> strictly_decreasing (renamed_numbers (printed (main (Some 1) (Some 0) (quiet same_number))))"
  by code_simp

text \<open>
  C1, amended. The original numbers of the renamed files, in the order of the renames,
  never increase when \<open>0 \<le> a\<close> and never decrease when \<open>a < 0\<close>; the order is strict
  when these numbers are pairwise distinct.
\<close>

theorem rename_order:
  assumes "cin_a = Some a"
  shows "(0 \<le>s a \<longrightarrow>
      decreasing (renamed_numbers (printed (main cin_a cin_b w)))
      \<and> (distinct (renamed_numbers (printed (main cin_a cin_b w)))
          \<longrightarrow> strictly_decreasing (renamed_numbers (printed (main cin_a cin_b w)))))
    \<and> (\<not> 0 \<le>s a \<longrightarrow>
      increasing (renamed_numbers (printed (main cin_a cin_b w)))
      \<and> (distinct (renamed_numbers (printed (main cin_a cin_b w)))
          \<longrightarrow> strictly_increasing (renamed_numbers (printed (main cin_a cin_b w)))))"
proof (cases "cin_b = None \<or> iteration_fails_after w \<noteq> None")
  case True
  then have "renames (printed (main cin_a cin_b w)) = []"
    by (intro renames_main_failed) auto
  then show ?thesis
    by (simp add: renamed_numbers_def decreasing_def strictly_decreasing_def increasing_def
        strictly_increasing_def)
next
  case False
  then obtain b where b: "cin_b = Some b" "iteration_fails_after w = None" by auto
  let ?ns = "renamed_numbers (printed (main cin_a cin_b w))"
  from assms b have ns: "?ns = renamed_numbers (pass_lines a b w)"
    by (simp add: renamed_numbers_def renames_main)
  have desc: "decreasing ?ns" if "0 \<le>s a"
    unfolding ns decreasing_def pass_lines_def
    by (intro renames_sorted processing_order_numbers processing_order_desc that)
  have asc: "increasing ?ns" if "\<not> 0 \<le>s a"
    unfolding ns increasing_def pass_lines_def
    by (intro renames_sorted processing_order_numbers processing_order_asc that)
  have "strictly_decreasing ?ns" if "decreasing ?ns" "distinct ?ns"
    using sorted_wrt_distinct_strict [OF that [unfolded decreasing_def]]
    unfolding strictly_decreasing_def by (rule sorted_wrt_mono_rel [rotated]) auto
  moreover have "strictly_increasing ?ns" if "increasing ?ns" "distinct ?ns"
    using sorted_wrt_distinct_strict [OF that [unfolded increasing_def]]
    unfolding strictly_increasing_def by (rule sorted_wrt_mono_rel [rotated]) auto
  ultimately show ?thesis using desc asc by blast
qed

theorem rename_order_witness:
  "0 \<le>s (2 :: int32)
   \<and> renamed_numbers (printed (main (Some 2) (Some 0) (quiet scenario_A))) = [7, 5]
   \<and> decreasing (renamed_numbers (printed (main (Some 2) (Some 0) (quiet scenario_A))))
   \<and> strictly_decreasing (renamed_numbers (printed (main (Some 2) (Some 0) (quiet scenario_A))))
   \<and> \<not> 0 \<le>s (- 2 :: int32)
   \<and> renamed_numbers (printed (main (Some (- 2)) (Some 0) (quiet scenario_A))) = [5, 7]
   \<and> increasing (renamed_numbers (printed (main (Some (- 2)) (Some 0) (quiet scenario_A))))
   \<and> strictly_increasing
        (renamed_numbers (printed (main (Some (- 2)) (Some 0) (quiet scenario_A))))"
proof -
  have ns: "renamed_numbers (printed (main (Some 2) (Some 0) (quiet scenario_A))) = [7, 5]"
    and ms: "renamed_numbers (printed (main (Some (- 2)) (Some 0) (quiet scenario_A))) = [5, 7]"
    by code_simp+
  have a: "0 \<le>s (2 :: int32)" and b: "\<not> 0 \<le>s (- 2 :: int32)"
    by code_simp+
  from rename_order [OF refl, of 2 "Some 0" "quiet scenario_A"] a ns
  have "decreasing (renamed_numbers (printed (main (Some 2) (Some 0) (quiet scenario_A))))
    \<and> strictly_decreasing (renamed_numbers (printed (main (Some 2) (Some 0) (quiet scenario_A))))"
    by simp
  moreover from rename_order [OF refl, of "- 2" "Some 0" "quiet scenario_A"] b ms
  have "increasing (renamed_numbers (printed (main (Some (- 2)) (Some 0) (quiet scenario_A))))
    \<and> strictly_increasing
        (renamed_numbers (printed (main (Some (- 2)) (Some 0) (quiet scenario_A))))"
    by simp
  ultimately show ?thesis using a b ns ms by blast
qed

text \<open>
  C2, as the specification states it: a run with offset 0 renames no file. It fails for a
  file name with leading zeros: \<^verbatim>\<open>007.txt\<close> is renamed to \<^verbatim>\<open>7.txt\<close>.
\<close>

theorem offset_zero_renames_leading_zeros:
  "renames (printed (main (Some 0) (Some 0) (quiet leading_zeros))) = [(''007.txt'', ''7.txt'')]
   \<and> fs (main (Some 0) (Some 0) (quiet leading_zeros)) = [(''7.txt'', Regular_file ''bond'')]"
  by code_simp

text \<open>
  C2, amended. When the digit run of every matched file is canonical (no leading zeros),
  a run with offset 0 and any minimum attempts no rename: every matched file is skipped,
  as below the minimum or as identical, the directory is unchanged, and so a second run
  with offset 0 changes nothing either.
\<close>

theorem offset_zero_canonical_unchanged:
  assumes "all_canonical (entries w)"
  shows "attempts (printed (main (Some 0) cin_b w)) = []
    \<and> (\<forall>p \<in> set (decisions (printed (main (Some 0) cin_b w))).
          snd p = Skip_minimum \<or> snd p = Skip_identical)
    \<and> fs (main (Some 0) cin_b w) = entries w
    \<and> fs (main (Some 0) cin_b2 (w\<lparr>entries := fs (main (Some 0) cin_b w)\<rparr>)) = entries w"
proof -
  have none: "attempts (printed (main (Some 0) c w)) = []" for c
  proof (rule ccontr)
    assume "attempts (printed (main (Some 0) c w)) \<noteq> []"
    then obtain old new where "(old, new) \<in> set (attempts (printed (main (Some 0) c w)))"
      by (cases "attempts (printed (main (Some 0) c w))") auto
    then have "(old, Attempt new) \<in> set (decisions (printed (main (Some 0) c w)))"
      by (simp add: attempts_decisions)
    from all_canonical_skips [OF assms this] show False by simp
  qed
  have same: "fs (main (Some 0) c w) = entries w" for c
  proof (rule fs_main_no_renames)
    show "renames (printed (main (Some 0) c w)) = []"
      using renames_attempts [of _ "printed (main (Some 0) c w)"] none [of c]
      by (cases "renames (printed (main (Some 0) c w))") auto
  qed
  have "\<forall>p \<in> set (decisions (printed (main (Some 0) cin_b w))).
      snd p = Skip_minimum \<or> snd p = Skip_identical"
  proof
    fix p
    assume "p \<in> set (decisions (printed (main (Some 0) cin_b w)))"
    then have "(fst p, snd p) \<in> set (decisions (printed (main (Some 0) cin_b w)))" by simp
    from all_canonical_skips [OF assms this]
    show "snd p = Skip_minimum \<or> snd p = Skip_identical" .
  qed
  with none [of cin_b] same [of cin_b] same [of cin_b2] show ?thesis by simp
qed

theorem offset_zero_canonical_unchanged_witness:
  "all_canonical (entries (quiet scenario_C))
   \<and> decisions (printed (main (Some 0) (Some 5) (quiet scenario_C)))
       = [(''9.txt'', Skip_identical), (''5.txt'', Skip_identical), (''2.txt'', Skip_minimum)]
   \<and> attempts (printed (main (Some 0) (Some 5) (quiet scenario_C))) = []
   \<and> fs (main (Some 0) (Some 5) (quiet scenario_C)) = entries (quiet scenario_C)
   \<and> fs (main (Some 0) (Some 0)
        ((quiet scenario_C)\<lparr>entries := fs (main (Some 0) (Some 5) (quiet scenario_C))\<rparr>))
       = entries (quiet scenario_C)"
proof -
  have h: "all_canonical (entries (quiet scenario_C))"
    by code_simp
  have d: "decisions (printed (main (Some 0) (Some 5) (quiet scenario_C)))
       = [(''9.txt'', Skip_identical), (''5.txt'', Skip_identical), (''2.txt'', Skip_minimum)]"
    by code_simp
  from offset_zero_canonical_unchanged [OF h, of "Some 5" "Some 0"] h d show ?thesis
    by blast
qed

text \<open>
  C3. For every file that is renamed, the numeric prefix of the new name is
  \<open>number + offset\<close> computed over the integers (the 32-bit sum did not wrap), and that
  number is not negative: no file whose computed new number is negative is renamed.
\<close>

theorem renamed_number_exact:
  assumes "(old, new) \<in> set (renames (printed (main cin_a cin_b w)))"
  shows "\<exists>a ext. cin_a = Some a
    \<and> regex_match old = Some (takeWhile is_digit old, ext)
    \<and> sint (word_of_int (original_number old) + a :: int32) = original_number old + sint a
    \<and> 0 \<le> original_number old + sint a
    \<and> new = dec (original_number old + sint a) @ ''.'' @ ext
    \<and> original_number new = original_number old + sint a"
proof -
  from assms have "(old, new) \<in> set (attempts (printed (main cin_a cin_b w)))"
    by (rule renames_attempts)
  from attempts_main [OF this] obtain a b f where
    *: "cin_a = Some a" "matched_file old = Some f" "\<not> number f + a <s 0"
      "new = to_string (number f + a) @ ''.'' @ extension f"
    by blast
  note t = attempt_target [OF *(2,3)]
  from *(2) have m: "regex_match old = Some (takeWhile is_digit old, extension f)"
    "number f = word_of_int (original_number old)"
    using matched_file_Some [of old f] by (simp, metis FileInfo.select_convs(1))
  from * t have "new = dec (original_number old + sint a) @ ''.'' @ extension f" by simp
  moreover from this t(2) have "original_number new = original_number old + sint a"
    using original_number_dec [of "original_number old + sint a" "extension f"] by simp
  ultimately show ?thesis using * t m by auto
qed

theorem renamed_number_exact_witness:
  "(''7.txt'', ''9.txt'') \<in> set (renames (printed (main (Some 2) (Some 0) (quiet scenario_A))))
   \<and> (\<exists>a ext. Some (2 :: int32) = Some a
        \<and> regex_match ''7.txt'' = Some (takeWhile is_digit ''7.txt'', ext)
        \<and> sint (word_of_int (original_number ''7.txt'') + a :: int32)
            = original_number ''7.txt'' + sint a
        \<and> 0 \<le> original_number ''7.txt'' + sint a
        \<and> ''9.txt'' = dec (original_number ''7.txt'' + sint a) @ ''.'' @ ext
        \<and> original_number ''9.txt'' = original_number ''7.txt'' + sint a)"
proof -
  have h: "(''7.txt'', ''9.txt'')
      \<in> set (renames (printed (main (Some 2) (Some 0) (quiet scenario_A))))"
    by code_simp
  from renamed_number_exact [OF h] h show ?thesis by blast
qed

text \<open>
  C4. If the extraction of \<open>a\<close> or of \<open>b\<close> fails, or the directory iteration throws, the
  program exits with a non-zero status, has attempted no rename, and leaves the directory
  as it was.
\<close>

theorem fatal_failure_renames_nothing:
  assumes "cin_a = None \<or> cin_b = None \<or> iteration_fails_after w \<noteq> None"
  shows "exit_code (main cin_a cin_b w) \<noteq> 0 \<and> fs (main cin_a cin_b w) = entries w
    \<and> attempts (printed (main cin_a cin_b w)) = []"
  using map_filter_main_failed [of attempted cin_a cin_b w, OF _ assms]
  by (simp add: attempts_def attempted_decision)

theorem fatal_failure_renames_nothing_witness:
  "iteration_fails_after ((quiet scenario_A)\<lparr>iteration_fails_after := Some 1\<rparr>) \<noteq> None
   \<and> exit_code (main (Some 2) (Some 0) ((quiet scenario_A)\<lparr>iteration_fails_after := Some 1\<rparr>)) \<noteq> 0
   \<and> fs (main (Some 2) (Some 0) ((quiet scenario_A)\<lparr>iteration_fails_after := Some 1\<rparr>))
       = scenario_A
   \<and> attempts (printed (main (Some 2) (Some 0) ((quiet scenario_A)\<lparr>iteration_fails_after := Some 1\<rparr>))) = []
   \<and> exit_code (main None (Some 0) (quiet scenario_A)) \<noteq> 0
   \<and> fs (main None (Some 0) (quiet scenario_A)) = scenario_A
   \<and> exit_code (main (Some 2) None (quiet scenario_A)) \<noteq> 0
   \<and> fs (main (Some 2) None (quiet scenario_A)) = scenario_A"
proof -
  have h: "iteration_fails_after ((quiet scenario_A)\<lparr>iteration_fails_after := Some 1\<rparr>) \<noteq> None"
    by simp
  have "Some (2 :: int32) = None \<or> Some (0 :: int32) = None
    \<or> iteration_fails_after ((quiet scenario_A)\<lparr>iteration_fails_after := Some 1\<rparr>) \<noteq> None"
    using h by simp
  from fatal_failure_renames_nothing [OF this] h
    fatal_failure_renames_nothing [of None "Some 0" "quiet scenario_A"]
    fatal_failure_renames_nothing [of "Some 2" None "quiet scenario_A"]
  show ?thesis
    by (simp add: quiet_def)
qed

text \<open>
  C5. A file whose original number is less than the minimum \<open>b\<close> is never renamed, and
  no rename of it is attempted, whatever the offset.
\<close>

theorem below_minimum_never_renamed:
  assumes "cin_b = Some b" "original_number name < sint b"
  shows "(name, new) \<notin> set (attempts (printed (main cin_a cin_b w)))
    \<and> (name, new) \<notin> set (renames (printed (main cin_a cin_b w)))"
proof -
  have "(name, new) \<notin> set (attempts (printed (main cin_a cin_b w)))"
  proof
    assume "(name, new) \<in> set (attempts (printed (main cin_a cin_b w)))"
    from attempts_main [OF this] assms(1) obtain f where
      "matched_file name = Some f" "\<not> number f <s b"
      by auto
    with assms(2) show False by (simp add: word_sless_alt matched_file_Some)
  qed
  then show ?thesis using renames_attempts by blast
qed

theorem below_minimum_never_renamed_witness:
  "original_number ''2.txt'' < sint (5 :: int32)
   \<and> (''2.txt'', ''3.txt'') \<notin> set (attempts (printed (main (Some 1) (Some 5) (quiet scenario_C))))
   \<and> (''2.txt'', ''3.txt'') \<notin> set (renames (printed (main (Some 1) (Some 5) (quiet scenario_C))))"
proof -
  have h: "original_number ''2.txt'' < sint (5 :: int32)"
    by code_simp
  from below_minimum_never_renamed [OF refl h] h show ?thesis by blast
qed

text \<open>
  C6. In a run that reaches the rename loop, what is decided for each file, in processing
  order, is what the three skip rules of the specification decide when they are tried in
  the order minimum, negative, identical and the first that holds wins; a rename is
  attempted only when none holds.
\<close>

theorem skip_rules_first_match:
  assumes "iteration_fails_after w = None"
  shows "decisions (printed (main (Some a) (Some b) w)) =
    map (\<lambda>f. (original_path f, spec_decision a b f)) (processing_order a w)"
  using assms unfolding decisions_def
  by (simp add: map_filter_main rename_pass_decisions [unfolded decisions_def] pass_lines_def)

theorem skip_rules_first_match_witness:
  "iteration_fails_after (quiet scenario_C) = None
   \<and> decisions (printed (main (Some (- 3)) (Some 5) (quiet scenario_C))) =
       map (\<lambda>f. (original_path f, spec_decision (- 3) 5 f))
         (processing_order (- 3) (quiet scenario_C))
   \<and> decisions (printed (main (Some (- 3)) (Some 5) (quiet scenario_C))) =
       [(''2.txt'', Skip_minimum), (''5.txt'', Attempt ''2.txt''), (''9.txt'', Attempt ''6.txt'')]"
proof -
  have h: "iteration_fails_after (quiet scenario_C) = None"
    by (simp add: quiet_def)
  have "decisions (printed (main (Some (- 3)) (Some 5) (quiet scenario_C))) =
       [(''2.txt'', Skip_minimum), (''5.txt'', Attempt ''2.txt''), (''9.txt'', Attempt ''6.txt'')]"
    by code_simp
  with skip_rules_first_match [OF h, of "- 3" 5] h show ?thesis by simp
qed

text \<open>
  C7. In a run whose inputs parse and whose directory iteration succeeds, neither a digit
  run that is too large nor a refused rename ends the program: the exit status is 0; a
  file (an entry of which \<^verbatim>\<open>is_regular_file()\<close> holds) whose digit run overflows is reported on \<^verbatim>\<open>cerr\<close> and is not processed
  further; a rename that \<^verbatim>\<open>fs::rename\<close> refuses is reported on \<^verbatim>\<open>cerr\<close>; and the rename
  loop prints its decision for every matched file of the directory, one line each.
\<close>

theorem single_file_failures_recoverable:
  assumes "iteration_fails_after w = None"
  shows "exit_code (main (Some a) (Some b) w) = 0
    \<and> (\<forall>e \<in> set (entries w). is_regular_file (snd e) \<and> overflows (fst e) \<longrightarrow>
          (Cerr, Warning_out_of_range (fst e)) \<in> set (printed (main (Some a) (Some b) w))
          \<and> fst e \<notin> fst ` set (decisions (printed (main (Some a) (Some b) w))))
    \<and> (\<forall>p \<in> set (attempts (printed (main (Some a) (Some b) w))).
          p \<notin> set (renames (printed (main (Some a) (Some b) w))) \<longrightarrow>
          (Cerr, Error_renaming (fst p) (snd p)) \<in> set (printed (main (Some a) (Some b) w)))
    \<and> map fst (decisions (printed (main (Some a) (Some b) w)))
        = map original_path (processing_order a w)
    \<and> mset (processing_order a w) = mset (List.map_filter entry_file (entries w))"
proof -
  let ?r = "main (Some a) (Some b) w"
  have 1: "exit_code ?r = 0" by (simp add: main_run [OF assms])
  have 2: "(Cerr, Warning_out_of_range (fst e)) \<in> set (printed ?r)
      \<and> fst e \<notin> fst ` set (decisions (printed ?r))"
    if "e \<in> set (entries w)" "is_regular_file (snd e)" "overflows (fst e)" for e
  proof
    from that have "(Cerr, Warning_out_of_range (fst e))
        \<in> set (snd (fold scan_entry (entries w) ([], [])))"
      by (intro overflow_warning [of _ "snd e"]) simp_all
    with printed_main_run(1) [OF assms] show "(Cerr, Warning_out_of_range (fst e)) \<in> set (printed ?r)"
      by blast
    show "fst e \<notin> fst ` set (decisions (printed ?r))"
    proof
      assume "fst e \<in> fst ` set (decisions (printed ?r))"
      then obtain d where "(fst e, d) \<in> set (decisions (printed ?r))" by force
      from decisions_main [OF this] that(3) show False
        by (auto simp: overflows_not_matched)
    qed
  qed
  have 3: "(Cerr, Error_renaming (fst p) (snd p)) \<in> set (printed ?r)"
    if "p \<in> set (attempts (printed ?r))" "p \<notin> set (renames (printed ?r))" for p
  proof -
    from that assms have "p \<in> set (attempts (pass_lines a b w))"
      "p \<notin> set (renames (pass_lines a b w))"
      by (simp_all add: attempts_main_run renames_main)
    then have "(Cerr, Error_renaming (fst p) (snd p)) \<in> set (pass_lines a b w)"
      unfolding pass_lines_def by (rule failed_attempt_reported)
    with printed_main_run(2) [OF assms] show ?thesis by blast
  qed
  have 4: "map fst (decisions (printed ?r)) = map original_path (processing_order a w)"
    using assms unfolding decisions_def
    by (simp add: map_filter_main rename_pass_decisions [unfolded decisions_def] pass_lines_def
        comp_def)
  have 5: "mset (processing_order a w) = mset (List.map_filter entry_file (entries w))"
    by (simp add: processing_order_mset scanned_eq)
  from 1 2 3 4 5 show ?thesis by blast
qed

theorem single_file_failures_recoverable_witness:
  "iteration_fails_after (locked_seven too_large) = None
   \<and> printed (main (Some 1) (Some 0) (locked_seven too_large)) =
       [(Cout, Banner), (Cout, Prompt_a), (Cout, Prompt_b), (Cout, Searching_for_files),
        (Cerr, Warning_out_of_range ''99999999999.x''),
        (Cout, Sorting_highest_to_lowest), (Cout, Attempting_to_rename),
        (Cerr, Error_renaming ''7.txt'' ''8.txt''), (Cout, Renamed ''5.txt'' ''6.txt''),
        (Cout, Renaming_process_complete), (Cout, Press_enter)]
   \<and> exit_code (main (Some 1) (Some 0) (locked_seven too_large)) = 0
   \<and> overflows ''99999999999.x''
   \<and> (Cerr, Warning_out_of_range ''99999999999.x'')
       \<in> set (printed (main (Some 1) (Some 0) (locked_seven too_large)))
   \<and> ''99999999999.x''
       \<notin> fst ` set (decisions (printed (main (Some 1) (Some 0) (locked_seven too_large))))
   \<and> (''7.txt'', ''8.txt'')
       \<in> set (attempts (printed (main (Some 1) (Some 0) (locked_seven too_large))))
   \<and> (''7.txt'', ''8.txt'')
       \<notin> set (renames (printed (main (Some 1) (Some 0) (locked_seven too_large))))
   \<and> (Cerr, Error_renaming ''7.txt'' ''8.txt'')
       \<in> set (printed (main (Some 1) (Some 0) (locked_seven too_large)))
   \<and> map fst (decisions (printed (main (Some 1) (Some 0) (locked_seven too_large))))
       = map original_path (processing_order 1 (locked_seven too_large))"
proof -
  let ?r = "main (Some 1) (Some 0) (locked_seven too_large)"
  have h: "iteration_fails_after (locked_seven too_large) = None"
    by (simp add: locked_seven_def)
  have p: "printed ?r =
       [(Cout, Banner), (Cout, Prompt_a), (Cout, Prompt_b), (Cout, Searching_for_files),
        (Cerr, Warning_out_of_range ''99999999999.x''),
        (Cout, Sorting_highest_to_lowest), (Cout, Attempting_to_rename),
        (Cerr, Error_renaming ''7.txt'' ''8.txt''), (Cout, Renamed ''5.txt'' ''6.txt''),
        (Cout, Renaming_process_complete), (Cout, Press_enter)]"
    by code_simp
  have e: "(''99999999999.x'', Regular_file ''huge'') \<in> set (entries (locked_seven too_large))"
    "is_regular_file (snd (''99999999999.x'', Regular_file ''huge''))"
    by (simp_all add: locked_seven_def too_large_def)
  have o: "overflows ''99999999999.x''"
    by code_simp
  have at: "(''7.txt'', ''8.txt'') \<in> set (attempts (printed ?r))"
    and rn: "(''7.txt'', ''8.txt'') \<notin> set (renames (printed ?r))"
    unfolding p by (simp_all add: attempts_def renames_def)
  note t = single_file_failures_recoverable [OF h, of 1 0]
  from t have x: "exit_code ?r = 0" ..
  from t [THEN conjunct2, THEN conjunct1, THEN bspec, OF e(1)] e(2) o
  have w: "(Cerr, Warning_out_of_range ''99999999999.x'') \<in> set (printed ?r)"
    and n: "''99999999999.x'' \<notin> fst ` set (decisions (printed ?r))"
    by simp_all
  from t [THEN conjunct2, THEN conjunct2, THEN conjunct1, THEN bspec, OF at] rn
  have r: "(Cerr, Error_renaming ''7.txt'' ''8.txt'') \<in> set (printed ?r)"
    by simp
  from t [THEN conjunct2, THEN conjunct2, THEN conjunct2, THEN conjunct1]
  have d: "map fst (decisions (printed ?r))
      = map original_path (processing_order 1 (locked_seven too_large))" .
  from h p x o w n at rn r d show ?thesis
    by - (intro conjI; assumption)
qed

text \<open>
  C8, as the specification states it: the program never deletes a file and leaves the
  files it does not rename entirely unchanged. It fails: with \<open>a = -2\<close> and \<open>b = 6\<close> on
  \<^verbatim>\<open>5.txt\<close> and \<^verbatim>\<open>7.txt\<close>, the file \<^verbatim>\<open>5.txt\<close> is skipped as below the minimum and
  \<^verbatim>\<open>7.txt\<close> is then renamed onto it. The contents of \<^verbatim>\<open>5.txt\<close> are gone, and one file is
  left of two.
\<close>

theorem rename_replaces_skipped_file:
  "printed (main (Some (- 2)) (Some 6) (quiet scenario_A)) =
     [(Cout, Banner), (Cout, Prompt_a), (Cout, Prompt_b), (Cout, Searching_for_files),
      (Cout, Sorting_lowest_to_highest), (Cout, Attempting_to_rename),
      (Cout, Skipping_less_than_b ''5.txt'' 5 6), (Cout, Renamed ''7.txt'' ''5.txt''),
      (Cout, Renaming_process_complete), (Cout, Press_enter)]
   \<and> map_of (entries (quiet scenario_A)) ''5.txt'' = Some (Regular_file ''five'')
   \<and> map_of (fs (main (Some (- 2)) (Some 6) (quiet scenario_A))) ''5.txt''
       = Some (Regular_file ''seven'')
   \<and> fs (main (Some (- 2)) (Some 6) (quiet scenario_A)) = [(''5.txt'', Regular_file ''seven'')]"
  by code_simp

text \<open>
  C8, amended. In every run the program's only change to the file system is renaming
  matched files in place within the current directory: the final directory is the initial
  one with the performed renames replayed, every performed rename has a matched file of
  the directory as its source, and an entry whose name is neither the old nor the new name
  of a performed rename is unchanged. The program never creates a file and never modifies
  contents: the entries of the final directory are, contents included and one to one,
  entries of the initial directory, so there are no more of them than before, and names
  stay unique.
\<close>

theorem only_renames_change_directory:
  "map_of (fs (main cin_a cin_b w))
     = replay (renames (printed (main cin_a cin_b w))) (map_of (entries w))
   \<and> (\<forall>name. name \<notin> fst ` set (renames (printed (main cin_a cin_b w)))
        \<and> name \<notin> snd ` set (renames (printed (main cin_a cin_b w)))
      \<longrightarrow> map_of (fs (main cin_a cin_b w)) name = map_of (entries w) name)
   \<and> (\<exists>origin. inj_on origin (dom (map_of (fs (main cin_a cin_b w))))
        \<and> (\<forall>name \<in> dom (map_of (fs (main cin_a cin_b w))).
              map_of (fs (main cin_a cin_b w)) name = map_of (entries w) (origin name)))
   \<and> length (fs (main cin_a cin_b w)) \<le> length (entries w)
   \<and> (distinct (map fst (entries w)) \<longrightarrow> distinct (map fst (fs (main cin_a cin_b w))))
   \<and> (\<forall>p \<in> set (renames (printed (main cin_a cin_b w))).
        matched_file (fst p) \<noteq> None
        \<and> (\<exists>nd. (fst p, nd) \<in> set (entries w) \<and> is_regular_file nd))"
proof -
  let ?r = "main cin_a cin_b w"
  have 1: "map_of (fs ?r) = replay (renames (printed ?r)) (map_of (entries w))"
    by (rule fs_main_replay)
  have 2: "map_of (fs ?r) name = map_of (entries w) name"
    if "name \<notin> fst ` set (renames (printed ?r))" "name \<notin> snd ` set (renames (printed ?r))"
    for name
  proof (cases "cin_a = None \<or> cin_b = None \<or> iteration_fails_after w \<noteq> None")
    case True
    from map_filter_main_failed [of renamed, OF renamed_line_decision True]
    show ?thesis by simp
  next
    case False
    then obtain a b where ab: "cin_a = Some a" "cin_b = Some b" "iteration_fails_after w = None"
      by auto
    then have fs: "fs ?r = fst (rename_pass a b (rename_denied w) (processing_order a w) (entries w))"
      by (simp add: main_run)
    from ab have rn: "renames (printed ?r)
        = renames (snd (rename_pass a b (rename_denied w) (processing_order a w) (entries w)))"
      by (simp add: renames_main pass_lines_def)
    from that show ?thesis unfolding fs rn by (rule rename_pass_frame)
  qed
  have 3: "\<exists>origin. inj_on origin (dom (map_of (fs ?r)))
      \<and> (\<forall>name \<in> dom (map_of (fs ?r)). map_of (fs ?r) name = map_of (entries w) (origin name))"
    unfolding 1 by (rule replay_origin)
  have 4: "length (fs ?r) \<le> length (entries w)"
    by (rule fs_main_length_distinct)
  have 5: "distinct (map fst (entries w)) \<longrightarrow> distinct (map fst (fs ?r))"
    using fs_main_length_distinct(2) by blast
  have 6: "matched_file (fst p) \<noteq> None \<and> (\<exists>nd. (fst p, nd) \<in> set (entries w) \<and> is_regular_file nd)"
    if "p \<in> set (renames (printed ?r))" for p
  proof -
    from that have "(fst p, snd p) \<in> set (attempts (printed ?r))"
      using renames_attempts by simp
    from attempts_main [OF this] obtain f where
      f: "f \<in> set (scanned w)" "matched_file (fst p) = Some f"
      by blast
    from f(2) have "original_path f = fst p" by (simp add: matched_file_Some)
    with scanned_matched [OF f(1)] f(2) show ?thesis by auto
  qed
  from 2 have frame: "\<forall>name. name \<notin> fst ` set (renames (printed ?r))
        \<and> name \<notin> snd ` set (renames (printed ?r))
      \<longrightarrow> map_of (fs ?r) name = map_of (entries w) name" by blast
  from 6 have sources: "\<forall>p \<in> set (renames (printed ?r)).
        matched_file (fst p) \<noteq> None
        \<and> (\<exists>nd. (fst p, nd) \<in> set (entries w) \<and> is_regular_file nd)" by blast
  from 1 frame 3 4 5 sources show ?thesis by - (intro conjI; assumption)
qed

theorem only_renames_change_directory_witness:
  "renames (printed (main (Some 1) (Some 0) (quiet with_link)))
     = [(''4.txt'', ''5.txt''), (''3.txt'', ''4.txt'')]
   \<and> fs (main (Some 1) (Some 0) (quiet with_link))
     = [(''readme'', Regular_file ''text''), (''5.txt'', Regular_file ''four''),
        (''4.txt'', Link_to_regular_file ''/data/three'')]
   \<and> map_of (fs (main (Some 1) (Some 0) (quiet with_link)))
     = replay [(''4.txt'', ''5.txt''), (''3.txt'', ''4.txt'')] (map_of (entries (quiet with_link)))
   \<and> ''readme'' \<notin> fst ` set (renames (printed (main (Some 1) (Some 0) (quiet with_link))))
   \<and> ''readme'' \<notin> snd ` set (renames (printed (main (Some 1) (Some 0) (quiet with_link))))
   \<and> map_of (fs (main (Some 1) (Some 0) (quiet with_link))) ''readme''
       = map_of (entries (quiet with_link)) ''readme''
   \<and> (\<exists>origin. inj_on origin (dom (map_of (fs (main (Some 1) (Some 0) (quiet with_link)))))
        \<and> (\<forall>name \<in> dom (map_of (fs (main (Some 1) (Some 0) (quiet with_link)))).
              map_of (fs (main (Some 1) (Some 0) (quiet with_link))) name
                = map_of (entries (quiet with_link)) (origin name)))
   \<and> length (fs (main (Some 1) (Some 0) (quiet with_link))) \<le> length (entries (quiet with_link))
   \<and> distinct (map fst (entries (quiet with_link)))
   \<and> distinct (map fst (fs (main (Some 1) (Some 0) (quiet with_link))))
   \<and> matched_file ''3.txt'' \<noteq> None
   \<and> (\<exists>nd. (''3.txt'', nd) \<in> set (entries (quiet with_link)) \<and> is_regular_file nd)"
proof -
  let ?r = "main (Some 1) (Some 0) (quiet with_link)"
  have rn: "renames (printed ?r) = [(''4.txt'', ''5.txt''), (''3.txt'', ''4.txt'')]"
    by code_simp
  have fs: "fs ?r = [(''readme'', Regular_file ''text''), (''5.txt'', Regular_file ''four''),
        (''4.txt'', Link_to_regular_file ''/data/three'')]"
    by code_simp
  have h1: "''readme'' \<notin> fst ` set (renames (printed ?r))"
    and h2: "''readme'' \<notin> snd ` set (renames (printed ?r))"
    and h3: "(''3.txt'', ''4.txt'') \<in> set (renames (printed ?r))"
    unfolding rn by simp_all
  have d: "distinct (map fst (entries (quiet with_link)))"
    by code_simp
  note t = only_renames_change_directory [of "Some 1" "Some 0" "quiet with_link"]
  from t [THEN conjunct1]
  have 1: "map_of (fs ?r)
      = replay [(''4.txt'', ''5.txt''), (''3.txt'', ''4.txt'')] (map_of (entries (quiet with_link)))"
    unfolding rn .
  from t [THEN conjunct2, THEN conjunct1, THEN spec, of "''readme''"] h1 h2
  have 2: "map_of (fs ?r) ''readme'' = map_of (entries (quiet with_link)) ''readme''"
    by blast
  note 3 = t [THEN conjunct2, THEN conjunct2, THEN conjunct1]
  note 4 = t [THEN conjunct2, THEN conjunct2, THEN conjunct2, THEN conjunct1]
  from t [THEN conjunct2, THEN conjunct2, THEN conjunct2, THEN conjunct2, THEN conjunct1] d
  have 5: "distinct (map fst (fs ?r))" by blast
  from t [THEN conjunct2, THEN conjunct2, THEN conjunct2, THEN conjunct2, THEN conjunct2,
      THEN bspec, OF h3]
  have 6: "matched_file ''3.txt'' \<noteq> None"
    "\<exists>nd. (''3.txt'', nd) \<in> set (entries (quiet with_link)) \<and> is_regular_file nd"
    by simp_all
  from rn fs 1 h1 h2 2 3 4 d 5 6 show ?thesis by - (intro conjI; assumption)
qed

text \<open>
  C9. Every new file name that the program builds and passes to \<^verbatim>\<open>fs::rename\<close> has the
  shape \<^verbatim>\<open>NUMBER.EXTENSION\<close>: the decimal digits, without leading zeros, of a number
  between 0 and \<^verbatim>\<open>INT_MAX\<close>, a dot, and the extension of the old name, which is not
  empty. The pattern matches it, and a later scan pushes a \<^verbatim>\<open>FileInfo\<close> for it.
\<close>

theorem new_name_matches_pattern:
  assumes "(old, new) \<in> set (attempts (printed (main cin_a cin_b w)))"
  shows "\<exists>n ext. 0 \<le> n \<and> n \<le> 2147483647 \<and> new = dec n @ ''.'' @ ext
    \<and> list_all is_digit (dec n) \<and> canonical (dec n) \<and> ext \<noteq> []
    \<and> regex_match old = Some (takeWhile is_digit old, ext)
    \<and> regex_match new = Some (dec n, ext)
    \<and> matched_file new = Some \<lparr>number = word_of_int n, original_path = new, extension = ext\<rparr>"
proof -
  from attempts_main [OF assms] obtain a b f where
    *: "cin_a = Some a" "matched_file old = Some f" "\<not> number f + a <s 0"
      "new = to_string (number f + a) @ ''.'' @ extension f"
    by blast
  note t = attempt_target [OF *(2,3)]
  let ?n = "original_number old + sint a" and ?ext = "extension f"
  from *(2) have m: "regex_match old = Some (takeWhile is_digit old, ?ext)"
    by (simp add: matched_file_Some)
  then have e: "?ext \<noteq> []" "list_all any_char ?ext" by (simp_all add: regex_match_Some_iff)
  from * t have new: "new = dec ?n @ ''.'' @ ?ext" by simp
  from t e new have "regex_match new = Some (dec ?n, ?ext)"
    "matched_file new = Some \<lparr>number = word_of_int ?n, original_path = new, extension = ?ext\<rparr>"
    using matched_file_dec [of ?n ?ext] by simp_all
  with t e new m show ?thesis
    by (intro exI [of _ ?n] exI [of _ ?ext]) (simp add: dec_digits canonical_dec)
qed

theorem new_name_matches_pattern_witness:
  "(''007.txt'', ''10.txt'')
     \<in> set (attempts (printed (main (Some 3) (Some 0) (quiet leading_zeros))))
   \<and> (\<exists>n ext. 0 \<le> n \<and> n \<le> 2147483647 \<and> ''10.txt'' = dec n @ ''.'' @ ext
        \<and> list_all is_digit (dec n) \<and> canonical (dec n) \<and> ext \<noteq> []
        \<and> regex_match ''007.txt'' = Some (takeWhile is_digit ''007.txt'', ext)
        \<and> regex_match ''10.txt'' = Some (dec n, ext)
        \<and> matched_file ''10.txt'' =
            Some \<lparr>number = word_of_int n, original_path = ''10.txt'', extension = ext\<rparr>)"
proof -
  have h: "(''007.txt'', ''10.txt'')
      \<in> set (attempts (printed (main (Some 3) (Some 0) (quiet leading_zeros))))"
    by code_simp
  from new_name_matches_pattern [OF h] h show ?thesis by blast
qed

text \<open>
  C10, as the specification states it: what is decided for a file depends only on its
  number, its extension and the two inputs. It fails: \<^verbatim>\<open>007.txt\<close> and \<^verbatim>\<open>7.txt\<close> have
  the same number and the same extension, and with the same inputs \<open>a = 0\<close>, \<open>b = 0\<close> the
  first is renamed and the second is skipped as identical.
\<close>

theorem decision_not_by_number_and_extension:
  "map_option number (matched_file ''007.txt'') = map_option number (matched_file ''7.txt'')
   \<and> map_option extension (matched_file ''007.txt'')
       = map_option extension (matched_file ''7.txt'')
   \<and> decisions (printed (main (Some 0) (Some 0) (quiet leading_zeros)))
       = [(''007.txt'', Attempt ''7.txt'')]
   \<and> decisions (printed (main (Some 0) (Some 0) (quiet plain_seven)))
       = [(''7.txt'', Skip_identical)]"
  by code_simp

text \<open>
  C10, amended. What is decided for a file (which skip, or the rename and its target)
  depends only on the file's own name and on the two inputs: in two runs with the same
  inputs, a file of the same name gets the same decision, whatever else the directories
  hold. The target of an attempted rename depends only on the number, the extension and
  the offset: two files with the same number and extension that are both to be renamed
  get the same target.
\<close>

theorem decision_depends_on_own_name:
  assumes "(name1, d1) \<in> set (decisions (printed (main cin_a cin_b w1)))"
    and "(name2, d2) \<in> set (decisions (printed (main cin_a cin_b w2)))"
  shows "(name1 = name2 \<longrightarrow> d1 = d2)
    \<and> (map_option number (matched_file name1) = map_option number (matched_file name2)
        \<and> map_option extension (matched_file name1) = map_option extension (matched_file name2)
        \<longrightarrow> (\<forall>new1 new2. d1 = Attempt new1 \<and> d2 = Attempt new2 \<longrightarrow> new1 = new2))"
proof -
  from decisions_main [OF assms(1)] obtain a b f1 where
    1: "cin_a = Some a" "cin_b = Some b" "matched_file name1 = Some f1" "d1 = spec_decision a b f1"
    by blast
  from decisions_main [OF assms(2)] 1(1,2) obtain f2 where
    2: "matched_file name2 = Some f2" "d2 = spec_decision a b f2"
    by auto
  from 1 2 have "name1 = name2 \<longrightarrow> d1 = d2" by auto
  moreover have "new1 = new2"
    if "number f1 = number f2" "extension f1 = extension f2" "d1 = Attempt new1" "d2 = Attempt new2"
    for new1 new2
    using that 1(4) 2(2) spec_decision_Attempt [of a b f1 new1] spec_decision_Attempt [of a b f2 new2]
    by simp
  ultimately show ?thesis using 1(3) 2(1) by simp
qed

theorem decision_depends_on_own_name_witness:
  "(''5.txt'', Attempt ''6.txt'')
     \<in> set (decisions (printed (main (Some 1) (Some 5) (quiet scenario_C))))
   \<and> (''5.txt'', Attempt ''6.txt'')
     \<in> set (decisions (printed (main (Some 1) (Some 5) (locked_seven too_large))))
   \<and> (''007.txt'', Attempt ''8.txt'')
     \<in> set (decisions (printed (main (Some 1) (Some 0) (quiet leading_zeros))))
   \<and> (''7.txt'', Attempt ''8.txt'')
     \<in> set (decisions (printed (main (Some 1) (Some 0) (quiet plain_seven))))
   \<and> map_option number (matched_file ''007.txt'') = map_option number (matched_file ''7.txt'')
   \<and> map_option extension (matched_file ''007.txt'')
       = map_option extension (matched_file ''7.txt'')"
proof -
  have h1: "(''5.txt'', Attempt ''6.txt'')
      \<in> set (decisions (printed (main (Some 1) (Some 5) (quiet scenario_C))))"
    by code_simp
  have h2: "(''5.txt'', Attempt ''6.txt'')
      \<in> set (decisions (printed (main (Some 1) (Some 5) (locked_seven too_large))))"
    by code_simp
  have h3: "(''007.txt'', Attempt ''8.txt'')
      \<in> set (decisions (printed (main (Some 1) (Some 0) (quiet leading_zeros))))"
    by code_simp
  have h4: "(''7.txt'', Attempt ''8.txt'')
      \<in> set (decisions (printed (main (Some 1) (Some 0) (quiet plain_seven))))"
    by code_simp
  have n: "map_option number (matched_file ''007.txt'')
      = map_option number (matched_file ''7.txt'')"
    and e: "map_option extension (matched_file ''007.txt'')
      = map_option extension (matched_file ''7.txt'')"
    by code_simp+
  from decision_depends_on_own_name [OF h1 h2] have "Attempt ''6.txt'' = Attempt ''6.txt''"
    by simp
  moreover from decision_depends_on_own_name [OF h3 h4] n e have "''8.txt'' = ''8.txt''"
    by simp
  ultimately show ?thesis using h1 h2 h3 h4 n e by - (intro conjI; assumption)
qed

end
